theory Spec2Isabelle
  imports Main "HOL-Library.Multiset"
begin

section \<open>Data model of the boundary communication code\<close>

text \<open>
  The structures below carry the fields that \<^verbatim>\<open>bvals_utils.hpp\<close> and
  \<^verbatim>\<open>bvals_fc.cpp\<close> read. C++ \<^verbatim>\<open>int\<close> values (block ids, levels, offsets,
  extents, cell indices) are modelled as \<open>int\<close>: every expression the code forms from
  them stays far inside the 32-bit range for the meshes the code is run on, and signed
  overflow has no defined result in C++ that a wrap-around could mirror.
  \<^verbatim>\<open>std::size_t\<close> values (slot numbers, vector lengths) are \<open>nat\<close>.
\<close>

datatype NeighborConnect = none | face | edge | corner

datatype BoundaryFace = undef | inner_x1 | outer_x1 | inner_x2 | outer_x2 | inner_x3 | outer_x3

datatype BoundaryType = any | local | nonlocal | flxcor_send | flxcor_recv

datatype LoopControl = cont | break_out

record NeighborIndexes =
  ox1 :: int
  ox2 :: int
  ox3 :: int
  fi1 :: int
  fi2 :: int
  type :: NeighborConnect

record SimpleNeighborBlock =
  rank :: int
  level :: int
  lid :: int
  gid :: int

record NeighborBlock =
  snb :: SimpleNeighborBlock
  ni :: NeighborIndexes
  fid :: BoundaryFace
  eid :: int
  bufid :: int
  targetid :: int

record LogicalLocation =
  level :: int

record RegionSize =
  nx1 :: int
  nx2 :: int
  nx3 :: int

text \<open>
  \<^verbatim>\<open>IndexShape\<close> restricted to the interior domain, the only one the functions
  modelled here ask for: \<^verbatim>\<open>cellbounds.is(interior)\<close> is the field \<open>is\<close>, and so on.
\<close>

record IndexShape =
  "is" :: int
  ie :: int
  js :: int
  je :: int
  ks :: int
  ke :: int

text \<open>
  A block: \<open>neighbor\<close> is the array \<^verbatim>\<open>pbval->neighbor\<close> cut to its first
  \<^verbatim>\<open>pbval->nneighbor\<close> entries.
\<close>

record MeshBlock =
  gid :: int
  lid :: int
  loc :: LogicalLocation
  block_size :: RegionSize
  cellbounds :: IndexShape
  neighbor :: "NeighborBlock list"

text \<open>
  A cell variable: its label, whether \<^verbatim>\<open>Metadata::FillGhost\<close> is set, and whether
  it is allocated.
\<close>

record CellVariable =
  label :: string
  FillGhost :: bool
  IsAllocated :: bool

text \<open>
  \<^verbatim>\<open>MeshBlockData\<close>: the block it belongs to (\<^verbatim>\<open>GetBlockPointer\<close>) and its
  variables in the order of \<^verbatim>\<open>GetCellVariableVector\<close>. A \<^verbatim>\<open>MeshData\<close> is the
  list of its block data, \<^verbatim>\<open>GetBlockData(0)\<close> first.
\<close>

record MeshBlockData =
  GetBlockPointer :: MeshBlock
  GetCellVariableVector :: "CellVariable list"

type_synonym MeshData = "MeshBlockData list"

type_synonym key_t = "int \<times> int \<times> string \<times> int"

section \<open>The boundary enumerator\<close>

text \<open>
  \<^verbatim>\<open>ForEachBoundary\<close> (bvals_utils.hpp, lines 73-104). The callback mutates what it
  captured by reference; here it takes the captured state and returns it with the
  \<^verbatim>\<open>LoopControl\<close> that \<^verbatim>\<open>func_caller\<close> hands back. \<^verbatim>\<open>Globals::my_rank\<close> is the
  parameter \<open>my_rank\<close>. The three nested loops are three recursions over the lists, a
  \<^verbatim>\<open>break_out\<close> leaving all of them.
\<close>

type_synonym 's boundary_func =
  "MeshBlock \<Rightarrow> MeshBlockData \<Rightarrow> NeighborBlock \<Rightarrow> CellVariable \<Rightarrow> 's \<Rightarrow> LoopControl \<times> 's"

text \<open>The \<^verbatim>\<open>continue\<close> statements at the head of the innermost loop body.\<close>

definition skip_neighbor :: "BoundaryType \<Rightarrow> int \<Rightarrow> MeshBlock \<Rightarrow> NeighborBlock \<Rightarrow> bool" where
  "skip_neighbor bound my_rank pmb nb =
     (if bound = local then rank (snb nb) \<noteq> my_rank
      else if bound = nonlocal then rank (snb nb) = my_rank
      else if bound = flxcor_send then
        (if SimpleNeighborBlock.level (snb nb) \<noteq> LogicalLocation.level (loc pmb) - 1 then True
         else \<bar>ox1 (ni nb)\<bar> + \<bar>ox2 (ni nb)\<bar> + \<bar>ox3 (ni nb)\<bar> \<noteq> 1)
      else if bound = flxcor_recv then
        (if SimpleNeighborBlock.level (snb nb) - 1 \<noteq> LogicalLocation.level (loc pmb) then True
         else \<bar>ox1 (ni nb)\<bar> + \<bar>ox2 (ni nb)\<bar> + \<bar>ox3 (ni nb)\<bar> \<noteq> 1)
      else False)"

fun neighbor_loop ::
  "BoundaryType \<Rightarrow> int \<Rightarrow> 's boundary_func \<Rightarrow> MeshBlock \<Rightarrow> MeshBlockData \<Rightarrow> CellVariable \<Rightarrow>
   NeighborBlock list \<Rightarrow> 's \<Rightarrow> LoopControl \<times> 's" where
  "neighbor_loop bound my_rank func pmb rc v [] s = (cont, s)"
| "neighbor_loop bound my_rank func pmb rc v (nb # nbs) s =
     (if skip_neighbor bound my_rank pmb nb then neighbor_loop bound my_rank func pmb rc v nbs s
      else (case func pmb rc nb v s of
              (break_out, s') \<Rightarrow> (break_out, s')
            | (cont, s') \<Rightarrow> neighbor_loop bound my_rank func pmb rc v nbs s'))"

fun variable_loop ::
  "BoundaryType \<Rightarrow> int \<Rightarrow> 's boundary_func \<Rightarrow> MeshBlock \<Rightarrow> MeshBlockData \<Rightarrow>
   CellVariable list \<Rightarrow> 's \<Rightarrow> LoopControl \<times> 's" where
  "variable_loop bound my_rank func pmb rc [] s = (cont, s)"
| "variable_loop bound my_rank func pmb rc (v # vs) s =
     (if FillGhost v then
        (case neighbor_loop bound my_rank func pmb rc v (neighbor pmb) s of
           (break_out, s') \<Rightarrow> (break_out, s')
         | (cont, s') \<Rightarrow> variable_loop bound my_rank func pmb rc vs s')
      else variable_loop bound my_rank func pmb rc vs s)"

fun block_loop ::
  "BoundaryType \<Rightarrow> int \<Rightarrow> 's boundary_func \<Rightarrow> MeshData \<Rightarrow> 's \<Rightarrow> LoopControl \<times> 's" where
  "block_loop bound my_rank func [] s = (cont, s)"
| "block_loop bound my_rank func (rc # rcs) s =
     (case variable_loop bound my_rank func (GetBlockPointer rc) rc (GetCellVariableVector rc) s of
        (break_out, s') \<Rightarrow> (break_out, s')
      | (cont, s') \<Rightarrow> block_loop bound my_rank func rcs s')"

definition ForEachBoundary :: "BoundaryType \<Rightarrow> int \<Rightarrow> MeshData \<Rightarrow> 's boundary_func \<Rightarrow> 's \<Rightarrow> 's" where
  "ForEachBoundary bound my_rank md func s = snd (block_loop bound my_rank func md s)"

text \<open>
  The second overload of \<^verbatim>\<open>func_caller\<close>: a callback that returns nothing is called
  and the loop continues.
\<close>

definition func_caller_void ::
  "(MeshBlock \<Rightarrow> MeshBlockData \<Rightarrow> NeighborBlock \<Rightarrow> CellVariable \<Rightarrow> 's \<Rightarrow> 's) \<Rightarrow> 's boundary_func" where
  "func_caller_void f pmb rc nb v s = (cont, f pmb rc nb v s)"

section \<open>Addressing\<close>

text \<open>\<^verbatim>\<open>SendKey\<close> and \<^verbatim>\<open>ReceiveKey\<close> (bvals_utils.hpp, lines 106-122).\<close>

definition SendKey :: "MeshBlock \<Rightarrow> NeighborBlock \<Rightarrow> CellVariable \<Rightarrow> key_t" where
  "SendKey pmb nb pcv =
     (let sender_id = MeshBlock.gid pmb;
          receiver_id = SimpleNeighborBlock.gid (snb nb);
          location_idx = (1 + ox1 (ni nb)) + 3 * (1 + ox2 (ni nb) + 3 * (1 + ox3 (ni nb)))
      in (sender_id, receiver_id, label pcv, location_idx))"

definition ReceiveKey :: "MeshBlock \<Rightarrow> NeighborBlock \<Rightarrow> CellVariable \<Rightarrow> key_t" where
  "ReceiveKey pmb nb pcv =
     (let receiver_id = MeshBlock.gid pmb;
          sender_id = SimpleNeighborBlock.gid (snb nb);
          location_idx = (1 - ox1 (ni nb)) + 3 * (1 - ox2 (ni nb) + 3 * (1 - ox3 (ni nb)))
      in (sender_id, receiver_id, label pcv, location_idx))"

section \<open>Face-centred boundary variables\<close>

subsection \<open>Flux-correction buffer sizes and channels\<close>

text \<open>
  \<^verbatim>\<open>FaceCenteredBoundaryVariable::ComputeFluxCorrectionBufferSize\<close> (bvals_fc.cpp,
  lines 138-172); \<open>pmb\<close> is \<^verbatim>\<open>pmy_block_\<close>, and \<open>n1, n2, n3\<close> are the locals
  \<^verbatim>\<open>nx1, nx2, nx3\<close>. The three \<^verbatim>\<open>if\<close> statements of the
  3-D edge case run one after the other, a later one overwriting \<open>size\<close>.
\<close>

definition ComputeFluxCorrectionBufferSize :: "MeshBlock \<Rightarrow> NeighborIndexes \<Rightarrow> int \<Rightarrow> int" where
  "ComputeFluxCorrectionBufferSize pmb ni' cng =
     (let n1 = nx1 (block_size pmb); n2 = nx2 (block_size pmb); n3 = nx3 (block_size pmb)
      in if type ni' = face then
           (if n3 > 1 then
              (if ox1 ni' \<noteq> 0 then (n2 + 1) * n3 + n2 * (n3 + 1)
               else if ox2 ni' \<noteq> 0 then (n1 + 1) * n3 + n1 * (n3 + 1)
               else (n1 + 1) * n2 + n1 * (n2 + 1))
            else if n2 > 1 then
              (if ox1 ni' \<noteq> 0 then (n2 + 1) + n2 else (n1 + 1) + n1)
            else 2)
         else if type ni' = edge then
           (if n3 > 1 then
              (let size0 = 0;
                   size1 = (if ox3 ni' = 0 then n3 else size0);
                   size2 = (if ox2 ni' = 0 then n2 else size1)
               in if ox1 ni' = 0 then n1 else size2)
            else if n2 > 1 then 1
            else 0)
         else 0)"

text \<open>
  The flux-correction part of the loop body of
  \<^verbatim>\<open>FaceCenteredBoundaryVariable::SetupPersistentMPI\<close> (bvals_fc.cpp, lines 891-958),
  for one neighbour: the persistent requests it creates on \<^verbatim>\<open>bd_var_flcor_\<close>, with their
  sizes, in order. \<open>mpi_parallel\<close> says whether \<^verbatim>\<open>MPI_PARALLEL\<close> is defined (the body
  is empty otherwise); \<open>size_in\<close> is the value \<^verbatim>\<open>size\<close> holds from the sizes computed
  before, and \<open>f2csize_in\<close> what the uninitialised \<^verbatim>\<open>f2csize\<close> holds; both survive
  where no branch assigns them. The \<^verbatim>\<open>continue\<close> of the last branch leaves the body.
\<close>

datatype flcor_request = Send_init int | Recv_init int

definition flcor_sizes :: "MeshBlock \<Rightarrow> NeighborBlock \<Rightarrow> int \<Rightarrow> int \<Rightarrow> (int \<times> int) option" where
  "flcor_sizes pmb nb size_in f2csize_in =
     (let n1 = nx1 (block_size pmb); n2 = nx2 (block_size pmb); n3 = nx3 (block_size pmb)
      in if type (ni nb) = face then
           (if n3 > 1 then
              (if fid nb = inner_x1 \<or> fid nb = outer_x1 then
                 Some ((n2 + 1) * n3 + n2 * (n3 + 1),
                       (n2 div 2 + 1) * (n3 div 2) + (n2 div 2) * (n3 div 2 + 1))
               else if fid nb = inner_x2 \<or> fid nb = outer_x2 then
                 Some ((n1 + 1) * n3 + n1 * (n3 + 1),
                       (n1 div 2 + 1) * (n3 div 2) + (n1 div 2) * (n3 div 2 + 1))
               else if fid nb = inner_x3 \<or> fid nb = outer_x3 then
                 Some ((n1 + 1) * n2 + n1 * (n2 + 1),
                       (n1 div 2 + 1) * (n2 div 2) + (n1 div 2) * (n2 div 2 + 1))
               else Some (size_in, f2csize_in))
            else if n2 > 1 then
              (if fid nb = inner_x1 \<or> fid nb = outer_x1 then Some ((n2 + 1) + n2, (n2 div 2 + 1) + n2 div 2)
               else if fid nb = inner_x2 \<or> fid nb = outer_x2 then Some ((n1 + 1) + n1, (n1 div 2 + 1) + n1 div 2)
               else Some (size_in, f2csize_in))
            else Some (2, 2))
         else if type (ni nb) = edge then
           (if n3 > 1 then
              (if eid nb \<ge> 0 \<and> eid nb < 4 then Some (n3, n3 div 2)
               else if eid nb \<ge> 4 \<and> eid nb < 8 then Some (n2, n2 div 2)
               else if eid nb \<ge> 8 \<and> eid nb < 12 then Some (n1, n1 div 2)
               else Some (size_in, f2csize_in))
            else if n2 > 1 then Some (1, 1)
            else Some (size_in, f2csize_in))
         else None)"

definition SetupPersistentMPI_flcor ::
  "bool \<Rightarrow> int \<Rightarrow> (int \<Rightarrow> bool) \<Rightarrow> MeshBlock \<Rightarrow> NeighborBlock \<Rightarrow> int \<Rightarrow> int \<Rightarrow> flcor_request list" where
  "SetupPersistentMPI_flcor mpi_parallel my_rank edge_flag pmb nb size_in f2csize_in =
     (if \<not> mpi_parallel then []
      else if rank (snb nb) = my_rank then []
      else
        (case flcor_sizes pmb nb size_in f2csize_in of
           None \<Rightarrow> []
         | Some (size', f2csize) \<Rightarrow>
             (let mylevel = LogicalLocation.level (loc pmb);
                  nblevel = SimpleNeighborBlock.level (snb nb)
              in (if nblevel = mylevel \<and>
                     (type (ni nb) = face \<or> (type (ni nb) = edge \<and> edge_flag (eid nb)))
                  then [Send_init size', Recv_init size'] else []) @
                 (if nblevel > mylevel then [Recv_init f2csize] else []) @
                 (if nblevel < mylevel then [Send_init f2csize] else []))))"

subsection \<open>Packing and unpacking an index box\<close>

text \<open>
  A component of a face field is indexed as \<^verbatim>\<open>x1f(k,j,i)\<close>; the \<^verbatim>\<open>Real\<close> values
  are only copied, so the element type is left open. Neither the arrays nor the raw
  buffer pointer carry extents that the source checks, and the model indexes them
  without bounds as well.
\<close>

type_synonym 'a array3 = "int \<times> int \<times> int \<Rightarrow> 'a"

record 'a FaceField =
  x1f :: "'a array3"
  x2f :: "'a array3"
  x3f :: "'a array3"

text \<open>The six local variables, in the order \<^verbatim>\<open>(si, ei, sj, ej, sk, ek)\<close>.\<close>

type_synonym index_box = "int \<times> int \<times> int \<times> int \<times> int \<times> int"

fun box_indices :: "index_box \<Rightarrow> (int \<times> int \<times> int) list" where
  "box_indices (si, ei, sj, ej, sk, ek) =
     concat (map (\<lambda>k. concat (map (\<lambda>j. map (\<lambda>i. (k, j, i)) [si..ei]) [sj..ej])) [sk..ek])"

text \<open>
  Modelled from the spec: \<^verbatim>\<open>BufferUtility::PackData\<close> and
  \<^verbatim>\<open>BufferUtility::UnpackData\<close> (utils/buffer_utils.hpp) are not among the sources.
  Section 4.5 of the specification has the packer select an index box and the unpacker
  mirror it. Both walk the box \<open>sk..ek\<close>, \<open>sj..ej\<close>, \<open>si..ei\<close> with \<open>i\<close> running
  fastest, copy one value per index to or from consecutive buffer positions starting at
  \<open>offset\<close>, and leave \<open>offset\<close> behind the last position used.
\<close>

definition PackData :: "'a array3 \<Rightarrow> (nat \<Rightarrow> 'a) \<Rightarrow> index_box \<Rightarrow> nat \<Rightarrow> (nat \<Rightarrow> 'a) \<times> nat" where
  "PackData src buf b offset =
     fold (\<lambda>idx (buf, p). (buf(p := src idx), p + 1)) (box_indices b) (buf, offset)"

definition UnpackData :: "(nat \<Rightarrow> 'a) \<Rightarrow> 'a array3 \<Rightarrow> index_box \<Rightarrow> nat \<Rightarrow> 'a array3 \<times> nat" where
  "UnpackData buf dst b offset =
     fold (\<lambda>idx (dst, p). (dst(idx := buf p), p + 1)) (box_indices b) (dst, offset)"

subsection \<open>LoadBoundaryBufferSameLevel\<close>

text \<open>
  \<^verbatim>\<open>FaceCenteredBoundaryVariable::LoadBoundaryBufferSameLevel\<close> (bvals_fc.cpp, lines
  179-232). \<open>NGHOST\<close> is the macro and \<open>multilevel\<close> is \<^verbatim>\<open>pmy_mesh_->multilevel\<close>.
  The index computations of the three components are \<open>load_bx1\<close>, \<open>load_bx2\<close> and
  \<open>load_bx3\<close>, each taking the six locals as the component before left them: the
  second keeps \<open>sk, ek\<close> of the first and the third keeps \<open>si, ei\<close> of the second.
\<close>

definition load_bx1 :: "int \<Rightarrow> bool \<Rightarrow> MeshBlock \<Rightarrow> NeighborBlock \<Rightarrow> index_box" where
  "load_bx1 NGHOST multilevel pmb nb =
     (let cb = cellbounds pmb;
          (si, ei) = (if ox1 (ni nb) = 0 then (is cb, ie cb + 1)
                      else if ox1 (ni nb) > 0 then (ie cb - NGHOST + 1, ie cb)
                      else (is cb + 1, is cb + NGHOST));
          (sj, ej) = (if ox2 (ni nb) = 0 then (js cb, je cb)
                      else if ox2 (ni nb) > 0 then (je cb - NGHOST + 1, je cb)
                      else (js cb, js cb + NGHOST - 1));
          (sk, ek) = (if ox3 (ni nb) = 0 then (ks cb, ke cb)
                      else if ox3 (ni nb) > 0 then (ke cb - NGHOST + 1, ke cb)
                      else (ks cb, ks cb + NGHOST - 1));
          (si, ei) = (if multilevel \<and> type (ni nb) \<noteq> face then
                        (if ox1 (ni nb) > 0 then (si, ei + 1)
                         else if ox1 (ni nb) < 0 then (si - 1, ei)
                         else (si, ei))
                      else (si, ei))
      in (si, ei, sj, ej, sk, ek))"

fun load_bx2 :: "int \<Rightarrow> bool \<Rightarrow> MeshBlock \<Rightarrow> NeighborBlock \<Rightarrow> index_box \<Rightarrow> index_box" where
  "load_bx2 NGHOST multilevel pmb nb (si1, ei1, sj1, ej1, sk, ek) =
     (let cb = cellbounds pmb;
          (si, ei) = (if ox1 (ni nb) = 0 then (is cb, ie cb)
                      else if ox1 (ni nb) > 0 then (ie cb - NGHOST + 1, ie cb)
                      else (is cb, is cb + NGHOST - 1));
          (sj, ej) = (if nx2 (block_size pmb) = 1 then (js cb, je cb)
                      else if ox2 (ni nb) = 0 then (js cb, je cb + 1)
                      else if ox2 (ni nb) > 0 then (je cb - NGHOST + 1, je cb)
                      else (js cb + 1, js cb + NGHOST));
          (sj, ej) = (if multilevel \<and> type (ni nb) \<noteq> face then
                        (if ox2 (ni nb) > 0 then (sj, ej + 1)
                         else if ox2 (ni nb) < 0 then (sj - 1, ej)
                         else (sj, ej))
                      else (sj, ej))
      in (si, ei, sj, ej, sk, ek))"

fun load_bx3 :: "int \<Rightarrow> bool \<Rightarrow> MeshBlock \<Rightarrow> NeighborBlock \<Rightarrow> index_box \<Rightarrow> index_box" where
  "load_bx3 NGHOST multilevel pmb nb (si, ei, sj2, ej2, sk2, ek2) =
     (let cb = cellbounds pmb;
          (sj, ej) = (if ox2 (ni nb) = 0 then (js cb, je cb)
                      else if ox2 (ni nb) > 0 then (je cb - NGHOST + 1, je cb)
                      else (js cb, js cb + NGHOST - 1));
          (sk, ek) = (if nx3 (block_size pmb) = 1 then (ks cb, ke cb)
                      else if ox3 (ni nb) = 0 then (ks cb, ke cb + 1)
                      else if ox3 (ni nb) > 0 then (ke cb - NGHOST + 1, ke cb)
                      else (ks cb + 1, ks cb + NGHOST));
          (sk, ek) = (if multilevel \<and> type (ni nb) \<noteq> face then
                        (if ox3 (ni nb) > 0 then (sk, ek + 1)
                         else if ox3 (ni nb) < 0 then (sk - 1, ek)
                         else (sk, ek))
                      else (sk, ek))
      in (si, ei, sj, ej, sk, ek))"

definition LoadBoundaryBufferSameLevel ::
  "int \<Rightarrow> bool \<Rightarrow> MeshBlock \<Rightarrow> 'a FaceField \<Rightarrow> (nat \<Rightarrow> 'a) \<Rightarrow> NeighborBlock \<Rightarrow> (nat \<Rightarrow> 'a) \<times> nat" where
  "LoadBoundaryBufferSameLevel NGHOST multilevel pmb var_fc buf nb =
     (let p = 0;
          b1 = load_bx1 NGHOST multilevel pmb nb;
          (buf, p) = PackData (x1f var_fc) buf b1 p;
          b2 = load_bx2 NGHOST multilevel pmb nb b1;
          (buf, p) = PackData (x2f var_fc) buf b2 p;
          b3 = load_bx3 NGHOST multilevel pmb nb b2;
          (buf, p) = PackData (x3f var_fc) buf b3 p
      in (buf, p))"

subsection \<open>SetBoundarySameLevel\<close>

text \<open>
  \<^verbatim>\<open>FaceCenteredBoundaryVariable::SetBoundarySameLevel\<close> (bvals_fc.cpp, lines
  431-505). Line 437 reads
  \<^verbatim>\<open>const IndexShape & cellbounds = cellbounds;\<close>
  the name in the initialiser is the reference being declared, so the reference is bound
  to no object, where \<^verbatim>\<open>LoadBoundaryBufferSameLevel\<close>, \<^verbatim>\<open>LoadBoundaryBufferToFiner\<close>
  and \<^verbatim>\<open>SetBoundaryFromFiner\<close> (lines 185, 333 and 616) bind \<^verbatim>\<open>pmb->cellbounds\<close>.
  Every index bound of the function is read through this reference, the first one at
  line 440, before anything is unpacked. C++ leaves such a read undefined; the model
  makes it the fault \<open>UnboundReference\<close>, which ends the call.

  The statements that follow line 437 are modelled first, as functions of the index
  shape \<open>cellbounds'\<close> that a read through the reference would deliver; the block
  \<open>pmb\<close> gives \<^verbatim>\<open>block_size\<close> only. \<open>SetBoundarySameLevel\<close> itself, at the end of this
  section, is the function as the source declares it.
\<close>

definition set_bx1 :: "int \<Rightarrow> bool \<Rightarrow> IndexShape \<Rightarrow> NeighborBlock \<Rightarrow> index_box" where
  "set_bx1 NGHOST multilevel cellbounds' nb =
     (let (si, ei) = (if ox1 (ni nb) = 0 then (is cellbounds', ie cellbounds' + 1)
                      else if ox1 (ni nb) > 0 then (ie cellbounds' + 2, ie cellbounds' + NGHOST + 1)
                      else (is cellbounds' - NGHOST, is cellbounds' - 1));
          (sj, ej) = (if ox2 (ni nb) = 0 then (js cellbounds', je cellbounds')
                      else if ox2 (ni nb) > 0 then (je cellbounds' + 1, je cellbounds' + NGHOST)
                      else (js cellbounds' - NGHOST, js cellbounds' - 1));
          (sk, ek) = (if ox3 (ni nb) = 0 then (ks cellbounds', ke cellbounds')
                      else if ox3 (ni nb) > 0 then (ke cellbounds' + 1, ke cellbounds' + NGHOST)
                      else (ks cellbounds' - NGHOST, ks cellbounds' - 1));
          (si, ei) = (if multilevel \<and> type (ni nb) \<noteq> face then
                        (if ox1 (ni nb) > 0 then (si - 1, ei)
                         else if ox1 (ni nb) < 0 then (si, ei + 1)
                         else (si, ei))
                      else (si, ei))
      in (si, ei, sj, ej, sk, ek))"

fun set_bx2 :: "int \<Rightarrow> bool \<Rightarrow> IndexShape \<Rightarrow> MeshBlock \<Rightarrow> NeighborBlock \<Rightarrow> index_box \<Rightarrow> index_box" where
  "set_bx2 NGHOST multilevel cellbounds' pmb nb (si1, ei1, sj1, ej1, sk, ek) =
     (let (si, ei) = (if ox1 (ni nb) = 0 then (is cellbounds', ie cellbounds')
                      else if ox1 (ni nb) > 0 then (ie cellbounds' + 1, ie cellbounds' + NGHOST)
                      else (is cellbounds' - NGHOST, is cellbounds' - 1));
          (sj, ej) = (if nx2 (block_size pmb) = 1 then (js cellbounds', je cellbounds')
                      else if ox2 (ni nb) = 0 then (js cellbounds', je cellbounds' + 1)
                      else if ox2 (ni nb) > 0 then (je cellbounds' + 2, je cellbounds' + NGHOST + 1)
                      else (js cellbounds' - NGHOST, js cellbounds' - 1));
          (sj, ej) = (if multilevel \<and> type (ni nb) \<noteq> face then
                        (if ox2 (ni nb) > 0 then (sj - 1, ej)
                         else if ox2 (ni nb) < 0 then (sj, ej + 1)
                         else (sj, ej))
                      else (sj, ej))
      in (si, ei, sj, ej, sk, ek))"

fun set_bx3 :: "int \<Rightarrow> bool \<Rightarrow> IndexShape \<Rightarrow> MeshBlock \<Rightarrow> NeighborBlock \<Rightarrow> index_box \<Rightarrow> index_box" where
  "set_bx3 NGHOST multilevel cellbounds' pmb nb (si, ei, sj2, ej2, sk2, ek2) =
     (let (sj, ej) = (if ox2 (ni nb) = 0 then (js cellbounds', je cellbounds')
                      else if ox2 (ni nb) > 0 then (je cellbounds' + 1, je cellbounds' + NGHOST)
                      else (js cellbounds' - NGHOST, js cellbounds' - 1));
          (sk, ek) = (if nx3 (block_size pmb) = 1 then (ks cellbounds', ke cellbounds')
                      else if ox3 (ni nb) = 0 then (ks cellbounds', ke cellbounds' + 1)
                      else if ox3 (ni nb) > 0 then (ke cellbounds' + 2, ke cellbounds' + NGHOST + 1)
                      else (ks cellbounds' - NGHOST, ks cellbounds' - 1));
          (sk, ek) = (if multilevel \<and> type (ni nb) \<noteq> face then
                        (if ox3 (ni nb) > 0 then (sk - 1, ek)
                         else if ox3 (ni nb) < 0 then (sk, ek + 1)
                         else (sk, ek))
                      else (sk, ek))
      in (si, ei, sj, ej, sk, ek))"

text \<open>The two replication loops (lines 474-478 and 496-502).\<close>

fun replicate_x2f :: "index_box \<Rightarrow> 'a array3 \<Rightarrow> 'a array3" where
  "replicate_x2f (si, ei, sj, ej, sk, ek) a =
     fold (\<lambda>i a. a((sk, sj + 1, i) := a (sk, sj, i))) [si..ei] a"

fun replicate_x3f :: "index_box \<Rightarrow> 'a array3 \<Rightarrow> 'a array3" where
  "replicate_x3f (si, ei, sj, ej, sk, ek) a =
     fold (\<lambda>j. fold (\<lambda>i a. a((sk + 1, j, i) := a (sk, j, i))) [si..ei]) [sj..ej] a"

text \<open>Lines 438-504, given what the reads through \<^verbatim>\<open>cellbounds\<close> deliver.\<close>

definition SetBoundarySameLevel_body ::
  "int \<Rightarrow> bool \<Rightarrow> IndexShape \<Rightarrow> MeshBlock \<Rightarrow> 'a FaceField \<Rightarrow> (nat \<Rightarrow> 'a) \<Rightarrow> NeighborBlock \<Rightarrow> 'a FaceField" where
  "SetBoundarySameLevel_body NGHOST multilevel cellbounds' pmb var_fc buf nb =
     (let p = 0;
          b1 = set_bx1 NGHOST multilevel cellbounds' nb;
          (a1, p) = UnpackData buf (x1f var_fc) b1 p;
          b2 = set_bx2 NGHOST multilevel cellbounds' pmb nb b1;
          (a2, p) = UnpackData buf (x2f var_fc) b2 p;
          a2 = (if nx2 (block_size pmb) = 1 then replicate_x2f b2 a2 else a2);
          b3 = set_bx3 NGHOST multilevel cellbounds' pmb nb b2;
          (a3, p) = UnpackData buf (x3f var_fc) b3 p;
          a3 = (if nx3 (block_size pmb) = 1 then replicate_x3f b3 a3 else a3)
      in \<lparr>x1f = a1, x2f = a2, x3f = a3\<rparr>)"

text \<open>
  A reference is \<open>None\<close> when it is bound to no object, and reading through it is then
  a fault.
\<close>

datatype reference_fault = UnboundReference

definition read_reference :: "'a option \<Rightarrow> reference_fault + 'a" where
  "read_reference r = (case r of None \<Rightarrow> Inl UnboundReference | Some x \<Rightarrow> Inr x)"

text \<open>
  The function of the source: line 437 leaves \<^verbatim>\<open>cellbounds\<close> without an object, and the
  bounds of line 440 are read through it.
\<close>

definition SetBoundarySameLevel ::
  "int \<Rightarrow> bool \<Rightarrow> MeshBlock \<Rightarrow> 'a FaceField \<Rightarrow> (nat \<Rightarrow> 'a) \<Rightarrow> NeighborBlock \<Rightarrow> reference_fault + 'a FaceField" where
  "SetBoundarySameLevel NGHOST multilevel pmb var_fc buf nb =
     (let cellbounds' = (None :: IndexShape option)
      in case read_reference cellbounds' of
           Inl e \<Rightarrow> Inl e
         | Inr cb \<Rightarrow> Inr (SetBoundarySameLevel_body NGHOST multilevel cb pmb var_fc buf nb))"

section \<open>Channels and the buffer cache\<close>

text \<open>
  Modelled from the spec: the class \<^verbatim>\<open>CommBuffer\<close> (utils/communication_buffer.hpp)
  and \<^verbatim>\<open>UsingSameResource\<close> are not among the sources. Section 4.4 of the
  specification lists the six states and says that \<^verbatim>\<open>IsAvailableForWrite\<close> tests
  exactly the \<open>available\<close> state; section 4.3 compares the "backing buffer resource" of a
  channel with the one recorded at rebuild time. A channel is therefore its state and the
  identity of the resource that \<^verbatim>\<open>buffer()\<close> hands out, and two resources are the same
  when their identities are equal.
\<close>

datatype BufferState = available | sending | sent | receiving | received | received_null

record CommBuffer =
  state :: BufferState
  buffer :: nat

definition IsAvailableForWrite :: "CommBuffer \<Rightarrow> bool" where
  "IsAvailableForWrite b = (state b = available)"

definition GetState :: "CommBuffer \<Rightarrow> BufferState" where
  "GetState b = state b"

definition UsingSameResource :: "nat \<Rightarrow> nat \<Rightarrow> bool" where
  "UsingSameResource a b = (a = b)"

text \<open>
  \<^verbatim>\<open>CommBuffer::Allocate\<close> and \<^verbatim>\<open>CommBuffer::Free\<close> are missing as well, and the
  specification says only that they reserve and release the channel's buffer. They are
  parameters of the validation: what a theorem needs of them is among its hypotheses.
\<close>

record CommBufferOps =
  Allocate :: "CommBuffer \<Rightarrow> CommBuffer"
  Free :: "CommBuffer \<Rightarrow> CommBuffer"

text \<open>
  The two fields of a transfer descriptor (\<^verbatim>\<open>BndInfo\<close>) that the validation reads.
\<close>

record BndInfo =
  buf :: nat
  allocated :: bool

text \<open>
  \<^verbatim>\<open>BvarsSubCache_t\<close>. The entries of \<open>buf_vec\<close> are pointers to the values of the
  communication map; a pointer is modelled by the key of the entry it points to, and the
  map is the store that dereferencing reads and \<^verbatim>\<open>Allocate\<close>/\<^verbatim>\<open>Free\<close> write.
\<close>

record BvarsSubCache_t =
  buf_vec :: "key_t list"
  idx_vec :: "nat list"
  bnd_info :: "BndInfo list"
  bnd_info_h :: "BndInfo list"

type_synonym BvarsCache_t = "BoundaryType \<Rightarrow> bool \<Rightarrow> BvarsSubCache_t"

type_synonym comm_map_t = "key_t \<rightharpoonup> CommBuffer"

definition GetSubCache :: "BvarsCache_t \<Rightarrow> BoundaryType \<Rightarrow> bool \<Rightarrow> BvarsSubCache_t" where
  "GetSubCache caches bound sender = caches bound sender"

text \<open>
  What C++ leaves undefined is a fault of the model: an index past the end of a
  \<^verbatim>\<open>std::vector\<close> or of a Kokkos view, and a pointer to a map entry that does not
  exist. \<open>RequireFailed\<close> is the abort of \<^verbatim>\<open>PARTHENON_DEBUG_REQUIRE\<close>. A fault ends
  the run: every later callback passes it on.
\<close>

datatype fault = OutOfBounds | DanglingPointer | RequireFailed

subsection \<open>BuildBufferCache\<close>

text \<open>
  \<^verbatim>\<open>BuildBufferCache\<close> (bvals_utils.hpp, lines 138-176). \<open>debug\<close> says whether
  \<^verbatim>\<open>PARTHENON_DEBUG_REQUIRE\<close> is compiled in; \<open>c0\<close> is the default-constructed channel
  that \<^verbatim>\<open>operator[]\<close> of the map inserts for a key it does not hold; \<open>shuffle\<close> is the
  action of \<^verbatim>\<open>std::shuffle\<close> with the generator seeded from \<^verbatim>\<open>std::random_device\<close>.
\<close>

type_synonym key_order_t = "(int \<times> nat \<times> key_t) list"

definition collect_key ::
  "bool \<Rightarrow> (MeshBlock \<Rightarrow> NeighborBlock \<Rightarrow> CellVariable \<Rightarrow> key_t) \<Rightarrow> comm_map_t \<Rightarrow>
   MeshBlock \<Rightarrow> MeshBlockData \<Rightarrow> NeighborBlock \<Rightarrow> CellVariable \<Rightarrow>
   fault + key_order_t \<times> nat \<Rightarrow> fault + key_order_t \<times> nat" where
  "collect_key debug KeyFunc comm_map pmb rc nb v st =
     (case st of
        Inl e \<Rightarrow> Inl e
      | Inr (key_order, boundary_idx) \<Rightarrow>
          (let key = KeyFunc pmb nb v in
           if debug \<and> comm_map key = None then Inl RequireFailed
           else
             (let recvr_idx = 27 * fst (snd key) + snd (snd (snd key))
              in Inr (key_order @ [(recvr_idx, boundary_idx, key)], boundary_idx + 1))))"

definition place_buffer ::
  "CommBuffer \<Rightarrow> int \<times> nat \<times> key_t \<Rightarrow>
   fault + key_t list \<times> nat list \<times> nat \<times> comm_map_t \<Rightarrow>
   fault + key_t list \<times> nat list \<times> nat \<times> comm_map_t" where
  "place_buffer c0 t st =
     (case st of
        Inl e \<Rightarrow> Inl e
      | Inr (pbuf_vec, pidx_vec, buff_idx, comm_map) \<Rightarrow>
          (let key = snd (snd t);
               comm_map' = (if comm_map key = None then comm_map(key \<mapsto> c0) else comm_map)
           in if fst (snd t) < length pidx_vec
              then Inr (pbuf_vec @ [key], pidx_vec[fst (snd t) := buff_idx], buff_idx + 1, comm_map')
              else Inl OutOfBounds))"

definition BuildBufferCache ::
  "BoundaryType \<Rightarrow> int \<Rightarrow> bool \<Rightarrow> CommBuffer \<Rightarrow> (key_order_t \<Rightarrow> key_order_t) \<Rightarrow> MeshData \<Rightarrow>
   comm_map_t \<Rightarrow> (MeshBlock \<Rightarrow> NeighborBlock \<Rightarrow> CellVariable \<Rightarrow> key_t) \<Rightarrow>
   fault + key_t list \<times> nat list \<times> comm_map_t" where
  "BuildBufferCache bound_type my_rank debug c0 shuffle md comm_map KeyFunc =
     (case ForEachBoundary bound_type my_rank md
             (func_caller_void (collect_key debug KeyFunc comm_map)) (Inr ([], 0)) of
        Inl e \<Rightarrow> Inl e
      | Inr (key_order, boundary_idx) \<Rightarrow>
          (let shuffled = shuffle key_order in
           case fold (place_buffer c0) shuffled
                  (Inr ([], replicate (length shuffled) 0, 0, comm_map)) of
             Inl e \<Rightarrow> Inl e
           | Inr (pbuf_vec, pidx_vec, buff_idx, comm_map') \<Rightarrow> Inr (pbuf_vec, pidx_vec, comm_map')))"

subsection \<open>Validation\<close>

text \<open>
  \<^verbatim>\<open>CheckSendBufferCacheForRebuild\<close> (bvals_utils.hpp, lines 178-207). The state of
  the callback is \<open>(rebuild, nbound, other_communication_unfinished)\<close> and the
  communication map, whose channels \<^verbatim>\<open>Allocate\<close> and \<^verbatim>\<open>Free\<close> change.
\<close>

type_synonym send_state = "bool \<times> nat \<times> bool \<times> comm_map_t"

definition check_send_body ::
  "CommBufferOps \<Rightarrow> BvarsSubCache_t \<Rightarrow> MeshBlock \<Rightarrow> MeshBlockData \<Rightarrow> NeighborBlock \<Rightarrow> CellVariable \<Rightarrow>
   fault + send_state \<Rightarrow> fault + send_state" where
  "check_send_body ops cache pmb rc nb v st =
     (case st of
        Inl e \<Rightarrow> Inl e
      | Inr (rebuild, nbound, other_communication_unfinished, comm_map) \<Rightarrow>
          if nbound < length (idx_vec cache) then
            (let ibuf = idx_vec cache ! nbound in
             if ibuf < length (buf_vec cache) then
               (case comm_map (buf_vec cache ! ibuf) of
                  None \<Rightarrow> Inl DanglingPointer
                | Some b \<Rightarrow>
                    (let unfinished' =
                           (if \<not> IsAvailableForWrite b then True else other_communication_unfinished);
                         b' = (if IsAllocated v then Allocate ops b else Free ops b);
                         rebuild' =
                           (if ibuf < length (bnd_info_h cache)
                            then rebuild \<or> \<not> UsingSameResource (buf (bnd_info_h cache ! ibuf)) (buffer b')
                            else True)
                     in Inr (rebuild', nbound + 1, unfinished', comm_map(buf_vec cache ! ibuf \<mapsto> b'))))
             else Inl OutOfBounds)
          else Inl OutOfBounds)"

definition CheckSendBufferCacheForRebuild ::
  "CommBufferOps \<Rightarrow> BoundaryType \<Rightarrow> bool \<Rightarrow> int \<Rightarrow> MeshData \<Rightarrow> BvarsCache_t \<Rightarrow> comm_map_t \<Rightarrow>
   fault + (bool \<times> nat \<times> bool) \<times> comm_map_t" where
  "CheckSendBufferCacheForRebuild ops BOUND_TYPE SENDER my_rank md caches comm_map =
     (let cache = GetSubCache caches BOUND_TYPE SENDER in
      case ForEachBoundary BOUND_TYPE my_rank md (func_caller_void (check_send_body ops cache))
             (Inr (False, 0, False, comm_map)) of
        Inl e \<Rightarrow> Inl e
      | Inr (rebuild, nbound, other_communication_unfinished, comm_map') \<Rightarrow>
          Inr ((rebuild, nbound, other_communication_unfinished), comm_map'))"

text \<open>
  \<^verbatim>\<open>CheckReceiveBufferCacheForRebuild\<close> (bvals_utils.hpp, lines 209-237). The cache
  is the one of \<open>(BOUND_TYPE, SENDER)\<close>; the enumeration is the one the source writes,
  \<^verbatim>\<open>ForEachBoundary<BoundaryType::flxcor_recv>\<close>.
\<close>

definition check_receive_body ::
  "BvarsSubCache_t \<Rightarrow> comm_map_t \<Rightarrow> MeshBlock \<Rightarrow> MeshBlockData \<Rightarrow> NeighborBlock \<Rightarrow> CellVariable \<Rightarrow>
   fault + bool \<times> nat \<Rightarrow> fault + bool \<times> nat" where
  "check_receive_body cache comm_map pmb rc nb v st =
     (case st of
        Inl e \<Rightarrow> Inl e
      | Inr (rebuild, nbound) \<Rightarrow>
          if nbound < length (idx_vec cache) then
            (let ibuf = idx_vec cache ! nbound in
             if ibuf < length (buf_vec cache) then
               (case comm_map (buf_vec cache ! ibuf) of
                  None \<Rightarrow> Inl DanglingPointer
                | Some b \<Rightarrow>
                    (if ibuf < length (bnd_info_h cache) then
                       (let r1 = (rebuild \<or> \<not> UsingSameResource (buf (bnd_info_h cache ! ibuf)) (buffer b));
                            r2 = (if GetState b = received \<and> \<not> allocated (bnd_info_h cache ! ibuf)
                                  then True else r1);
                            r3 = (if GetState b = received_null \<and> allocated (bnd_info_h cache ! ibuf)
                                  then True else r2)
                        in Inr (r3, nbound + 1))
                     else Inr (True, nbound + 1)))
             else Inl OutOfBounds)
          else Inl OutOfBounds)"

definition CheckReceiveBufferCacheForRebuild ::
  "BoundaryType \<Rightarrow> bool \<Rightarrow> int \<Rightarrow> MeshData \<Rightarrow> BvarsCache_t \<Rightarrow> comm_map_t \<Rightarrow> fault + bool \<times> nat" where
  "CheckReceiveBufferCacheForRebuild BOUND_TYPE SENDER my_rank md caches comm_map =
     (let cache = GetSubCache caches BOUND_TYPE SENDER in
      ForEachBoundary flxcor_recv my_rank md (func_caller_void (check_receive_body cache comm_map))
        (Inr (False, 0)))"

subsection \<open>RebuildBufferCache\<close>

text \<open>
  \<^verbatim>\<open>RebuildBufferCache\<close> (bvals_utils.hpp, lines 244-261). \<open>bnd0\<close> is the content
  of a freshly created descriptor view; \<open>BndInfoCreator\<close> reads the channel its pointer
  argument points to. The function returns the caches with the sub-cache replaced.
\<close>

definition rebuild_body ::
  "BvarsSubCache_t \<Rightarrow> comm_map_t \<Rightarrow> (MeshBlock \<Rightarrow> NeighborBlock \<Rightarrow> CellVariable \<Rightarrow> CommBuffer \<Rightarrow> BndInfo) \<Rightarrow>
   MeshBlock \<Rightarrow> MeshBlockData \<Rightarrow> NeighborBlock \<Rightarrow> CellVariable \<Rightarrow>
   fault + BndInfo list \<times> nat \<Rightarrow> fault + BndInfo list \<times> nat" where
  "rebuild_body cache comm_map BndInfoCreator pmb rc nb v st =
     (case st of
        Inl e \<Rightarrow> Inl e
      | Inr (info_h, ibound) \<Rightarrow>
          if ibound < length (idx_vec cache) then
            (let ibuf = idx_vec cache ! ibound in
             if ibuf < length (buf_vec cache) \<and> ibuf < length info_h then
               (case comm_map (buf_vec cache ! ibuf) of
                  None \<Rightarrow> Inl DanglingPointer
                | Some b \<Rightarrow> Inr (info_h[ibuf := BndInfoCreator pmb nb v b], ibound + 1))
             else Inl OutOfBounds)
          else Inl OutOfBounds)"

definition RebuildBufferCache ::
  "BoundaryType \<Rightarrow> bool \<Rightarrow> int \<Rightarrow> BndInfo \<Rightarrow> MeshData \<Rightarrow> nat \<Rightarrow>
   (MeshBlock \<Rightarrow> NeighborBlock \<Rightarrow> CellVariable \<Rightarrow> CommBuffer \<Rightarrow> BndInfo) \<Rightarrow>
   BvarsCache_t \<Rightarrow> comm_map_t \<Rightarrow> fault + BvarsCache_t" where
  "RebuildBufferCache BOUND_TYPE SENDER my_rank bnd0 md nbound BndInfoCreator caches comm_map =
     (let cache = GetSubCache caches BOUND_TYPE SENDER in
      case ForEachBoundary BOUND_TYPE my_rank md
             (func_caller_void (rebuild_body cache comm_map BndInfoCreator))
             (Inr (replicate nbound bnd0, 0)) of
        Inl e \<Rightarrow> Inl e
      | Inr (info_h, ibound) \<Rightarrow>
          Inr (\<lambda>b s. if b = BOUND_TYPE \<and> s = SENDER
                      then cache\<lparr>bnd_info := info_h, bnd_info_h := info_h\<rparr>
                      else caches b s))"

section \<open>Example inputs\<close>

text \<open>
  Small concrete meshes on which the theorems below are instantiated. \<open>ex_shape g\<close> is
  the interior index range of a block with \<open>g\<close> ghost cells, an axis of extent 1 having
  none.
\<close>

definition ex_ni :: "int \<Rightarrow> int \<Rightarrow> int \<Rightarrow> NeighborConnect \<Rightarrow> NeighborIndexes" where
  "ex_ni a b c t = \<lparr>ox1 = a, ox2 = b, ox3 = c, fi1 = 0, fi2 = 0, type = t\<rparr>"

definition ex_nb :: "int \<Rightarrow> int \<Rightarrow> int \<Rightarrow> NeighborIndexes \<Rightarrow> NeighborBlock" where
  "ex_nb g r l n =
     \<lparr>snb = \<lparr>rank = r, SimpleNeighborBlock.level = l, SimpleNeighborBlock.lid = 0,
             SimpleNeighborBlock.gid = g\<rparr>,
      ni = n, fid = undef, eid = 0, bufid = 0, targetid = 0\<rparr>"

definition ex_shape :: "int \<Rightarrow> int \<Rightarrow> int \<Rightarrow> int \<Rightarrow> IndexShape" where
  "ex_shape g n1 n2 n3 =
     \<lparr>is = g, ie = g + n1 - 1,
      js = (if n2 > 1 then g else 0), je = (if n2 > 1 then g + n2 - 1 else 0),
      ks = (if n3 > 1 then g else 0), ke = (if n3 > 1 then g + n3 - 1 else 0)\<rparr>"

definition ex_block :: "int \<Rightarrow> int \<Rightarrow> int \<Rightarrow> int \<Rightarrow> int \<Rightarrow> NeighborBlock list \<Rightarrow> MeshBlock" where
  "ex_block g l n1 n2 n3 nbs =
     \<lparr>MeshBlock.gid = g, MeshBlock.lid = 0, loc = \<lparr>LogicalLocation.level = l\<rparr>,
      block_size = \<lparr>nx1 = n1, nx2 = n2, nx3 = n3\<rparr>, cellbounds = ex_shape 2 n1 n2 n3,
      neighbor = nbs\<rparr>"

definition ex_var :: "string \<Rightarrow> bool \<Rightarrow> bool \<Rightarrow> CellVariable" where
  "ex_var l g a = \<lparr>label = l, FillGhost = g, IsAllocated = a\<rparr>"

definition ex_nbs :: "NeighborBlock list" where
  "ex_nbs = [ex_nb 1 0 1 (ex_ni 1 0 0 face), ex_nb 2 1 0 (ex_ni 0 (-1) 0 face),
             ex_nb 3 1 2 (ex_ni 0 0 1 face), ex_nb 4 0 0 (ex_ni 1 1 0 edge)]"

definition ex_md :: MeshData where
  "ex_md = [\<lparr>GetBlockPointer = ex_block 0 1 4 4 4 ex_nbs,
             GetCellVariableVector = [ex_var ''rho'' True True, ex_var ''tmp'' False True]\<rparr>]"

text \<open>
  Channel operations that give a channel without a resource the resource 1 and take it
  away again, and a cache that was never built.
\<close>

definition ex_ops :: CommBufferOps where
  "ex_ops = \<lparr>Allocate = (\<lambda>b. if buffer b = 0 then b\<lparr>buffer := 1\<rparr> else b),
            Free = (\<lambda>b. b\<lparr>buffer := 0\<rparr>)\<rparr>"

definition ex_empty_caches :: BvarsCache_t where
  "ex_empty_caches = (\<lambda>b s. \<lparr>buf_vec = [], idx_vec = [], bnd_info = [], bnd_info_h = []\<rparr>)"

text \<open>
  The mesh of the examples with the cache of its four boundaries, slots in reverse
  order, and all channels allocated: with the channel of the first boundary left in
  state \<open>sending\<close> the validation reports an unfinished transfer, and with that channel
  available it does not.
\<close>

definition ex_keys :: "key_t list" where
  "ex_keys = [(0, 1, ''rho'', 14), (0, 2, ''rho'', 10), (0, 3, ''rho'', 22), (0, 4, ''rho'', 17)]"

definition ex_caches :: BvarsCache_t where
  "ex_caches = (\<lambda>b s. \<lparr>buf_vec = rev ex_keys, idx_vec = [3, 2, 1, 0],
                        bnd_info = replicate 4 \<lparr>buf = 1, allocated = True\<rparr>,
                        bnd_info_h = replicate 4 \<lparr>buf = 1, allocated = True\<rparr>\<rparr>)"

definition ex_cm :: "BufferState \<Rightarrow> comm_map_t" where
  "ex_cm s = map_of [((0, 1, ''rho'', 14), \<lparr>state = s, buffer = 1\<rparr>),
                     ((0, 2, ''rho'', 10), \<lparr>state = available, buffer = 1\<rparr>),
                     ((0, 3, ''rho'', 22), \<lparr>state = available, buffer = 1\<rparr>),
                     ((0, 4, ''rho'', 17), \<lparr>state = available, buffer = 1\<rparr>)]"

text \<open>
  A descriptor factory that records the channel's resource and the variable's allocation
  state.
\<close>

definition ex_creator :: "MeshBlock \<Rightarrow> NeighborBlock \<Rightarrow> CellVariable \<Rightarrow> CommBuffer \<Rightarrow> BndInfo" where
  "ex_creator pmb nb v b = \<lparr>buf = buffer b, allocated = IsAllocated v\<rparr>"

text \<open>
  A block with one neighbour, on its own level and on rank 1, and one variable; a
  receive-side cache of its one boundary, recorded allocated with resource 1; and a
  channel map in which that channel has received the null marker and holds resource 2.
\<close>

definition ex_uniform_md :: MeshData where
  "ex_uniform_md = [\<lparr>GetBlockPointer = ex_block 0 1 4 4 4 [ex_nb 1 1 1 (ex_ni 1 0 0 face)],
                     GetCellVariableVector = [ex_var ''rho'' True True]\<rparr>]"

definition ex_recv_caches :: BvarsCache_t where
  "ex_recv_caches = (\<lambda>b s. \<lparr>buf_vec = [(1, 0, ''rho'', 12)], idx_vec = [0],
                             bnd_info = [\<lparr>buf = 1, allocated = True\<rparr>],
                             bnd_info_h = [\<lparr>buf = 1, allocated = True\<rparr>]\<rparr>)"

definition ex_recv_cm :: comm_map_t where
  "ex_recv_cm = [(1, 0, ''rho'', 12) \<mapsto> \<lparr>state = received_null, buffer = 2\<rparr>]"

text \<open>
  A face field whose values tell component and index apart, a buffer that holds
  \<open>100 + n\<close> at position \<open>n\<close>, and an index shape and a face field of zeros.
\<close>

definition ex_field :: "int FaceField" where
  "ex_field = \<lparr>x1f = (\<lambda>(k, j, i). 1000 + 100 * k + 10 * j + i),
               x2f = (\<lambda>(k, j, i). 2000 + 100 * k + 10 * j + i),
               x3f = (\<lambda>(k, j, i). 3000 + 100 * k + 10 * j + i)\<rparr>"

definition ex_rbuf :: "nat \<Rightarrow> int" where
  "ex_rbuf n = 100 + int n"

definition ex_zero_shape :: IndexShape where
  "ex_zero_shape = \<lparr>is = 0, ie = 0, js = 0, je = 0, ks = 0, ke = 0\<rparr>"

definition ex_zero_field :: "int FaceField" where
  "ex_zero_field = \<lparr>x1f = (\<lambda>x. 0), x2f = (\<lambda>x. 0), x3f = (\<lambda>x. 0)\<rparr>"

section \<open>Auxiliary definitions\<close>

text \<open>
  Notions the statements below are phrased in: the list of boundaries an enumeration
  visits, and the bodies of the callbacks as functions of one visited boundary.
\<close>

text \<open>
  The boundaries of a subset, in enumeration order, as the list a recording callback
  collects.
\<close>

definition record_boundary :: "(MeshBlock \<times> NeighborBlock \<times> CellVariable) list boundary_func" where
  "record_boundary = func_caller_void (\<lambda>pmb rc nb v acc. acc @ [(pmb, nb, v)])"

definition visited :: "BoundaryType \<Rightarrow> int \<Rightarrow> MeshData \<Rightarrow> (MeshBlock \<times> NeighborBlock \<times> CellVariable) list" where
  "visited bound my_rank md = ForEachBoundary bound my_rank md record_boundary []"

text \<open>The same walk with the neighbour test left as a parameter.\<close>

definition triples ::
  "(MeshBlock \<Rightarrow> NeighborBlock \<Rightarrow> bool) \<Rightarrow> MeshData \<Rightarrow> (MeshBlock \<times> NeighborBlock \<times> CellVariable) list" where
  "triples keep md =
     concat (map (\<lambda>rc.
       concat (map (\<lambda>v. map (\<lambda>nb. (GetBlockPointer rc, nb, v))
                            (filter (keep (GetBlockPointer rc)) (neighbor (GetBlockPointer rc))))
                   (filter FillGhost (GetCellVariableVector rc)))) md)"

definition offsets_in_range :: "NeighborBlock \<Rightarrow> bool" where
  "offsets_in_range nb =
     (ox1 (ni nb) \<in> {-1, 0, 1} \<and> ox2 (ni nb) \<in> {-1, 0, 1} \<and> ox3 (ni nb) \<in> {-1, 0, 1})"

definition nonzero_offsets :: "NeighborBlock \<Rightarrow> nat" where
  "nonzero_offsets nb = length (filter (\<lambda>x. x \<noteq> 0) [ox1 (ni nb), ox2 (ni nb), ox3 (ni nb)])"

text \<open>The key of a visited triple, and the first callback of the build as a step on it.\<close>

definition key_of :: "(MeshBlock \<Rightarrow> NeighborBlock \<Rightarrow> CellVariable \<Rightarrow> key_t) \<Rightarrow>
    MeshBlock \<times> NeighborBlock \<times> CellVariable \<Rightarrow> key_t" where
  "key_of KeyFunc t = (case t of (pmb, nb, v) \<Rightarrow> KeyFunc pmb nb v)"

definition collect_step ::
  "bool \<Rightarrow> (MeshBlock \<Rightarrow> NeighborBlock \<Rightarrow> CellVariable \<Rightarrow> key_t) \<Rightarrow> comm_map_t \<Rightarrow>
   MeshBlock \<times> NeighborBlock \<times> CellVariable \<Rightarrow> fault + key_order_t \<times> nat \<Rightarrow> fault + key_order_t \<times> nat" where
  "collect_step debug KeyFunc cm t st =
     (case st of
        Inl e \<Rightarrow> Inl e
      | Inr (ko, n) \<Rightarrow>
          if debug \<and> cm (key_of KeyFunc t) = None then Inl RequireFailed
          else Inr (ko @ [(27 * fst (snd (key_of KeyFunc t)) + snd (snd (snd (key_of KeyFunc t))), n,
                           key_of KeyFunc t)], Suc n))"

text \<open>The callbacks of the two validations as steps on a visited triple.\<close>

definition chan_op :: "CommBufferOps \<Rightarrow> MeshBlock \<times> NeighborBlock \<times> CellVariable \<Rightarrow> CommBuffer \<Rightarrow> CommBuffer" where
  "chan_op ops t b = (if IsAllocated (snd (snd t)) then Allocate ops b else Free ops b)"

definition chan_key :: "BvarsSubCache_t \<Rightarrow> nat \<Rightarrow> key_t" where
  "chan_key cache n = buf_vec cache ! (idx_vec cache ! n)"

definition send_step ::
  "CommBufferOps \<Rightarrow> BvarsSubCache_t \<Rightarrow> MeshBlock \<times> NeighborBlock \<times> CellVariable \<Rightarrow>
   fault + send_state \<Rightarrow> fault + send_state" where
  "send_step ops cache t st =
     (case st of
        Inl e \<Rightarrow> Inl e
      | Inr (rb, n, u, cm) \<Rightarrow>
          if n < length (idx_vec cache) then
            if idx_vec cache ! n < length (buf_vec cache) then
              (case cm (chan_key cache n) of
                 None \<Rightarrow> Inl DanglingPointer
               | Some b \<Rightarrow>
                   Inr (if idx_vec cache ! n < length (bnd_info_h cache)
                        then rb \<or> buf (bnd_info_h cache ! (idx_vec cache ! n)) \<noteq> buffer (chan_op ops t b)
                        else True,
                        Suc n, u \<or> state b \<noteq> available, cm(chan_key cache n \<mapsto> chan_op ops t b)))
            else Inl OutOfBounds
          else Inl OutOfBounds)"

definition recv_step ::
  "BvarsSubCache_t \<Rightarrow> comm_map_t \<Rightarrow> MeshBlock \<times> NeighborBlock \<times> CellVariable \<Rightarrow>
   fault + bool \<times> nat \<Rightarrow> fault + bool \<times> nat" where
  "recv_step cache cm t st =
     (case st of
        Inl e \<Rightarrow> Inl e
      | Inr (rb, n) \<Rightarrow>
          if n < length (idx_vec cache) then
            if idx_vec cache ! n < length (buf_vec cache) then
              (case cm (chan_key cache n) of
                 None \<Rightarrow> Inl DanglingPointer
               | Some b \<Rightarrow>
                   Inr (if idx_vec cache ! n < length (bnd_info_h cache)
                        then rb \<or> buf (bnd_info_h cache ! (idx_vec cache ! n)) \<noteq> buffer b \<or>
                             (state b = received \<and> \<not> allocated (bnd_info_h cache ! (idx_vec cache ! n))) \<or>
                             (state b = received_null \<and> allocated (bnd_info_h cache ! (idx_vec cache ! n)))
                        else True,
                        Suc n))
            else Inl OutOfBounds
          else Inl OutOfBounds)"

text \<open>
  The conditions under which the slot of position \<open>m\<close> asks for a rebuild on the
  receive side: the slot lies beyond the recorded descriptors, or the channel's resource
  is not the recorded one, or the channel is \<open>received\<close> and was recorded unallocated,
  or it is \<open>received_null\<close> and was recorded allocated.
\<close>

definition stale_slot :: "BvarsSubCache_t \<Rightarrow> comm_map_t \<Rightarrow> nat \<Rightarrow> bool" where
  "stale_slot cache cm m =
     (\<not> idx_vec cache ! m < length (bnd_info_h cache) \<or>
      (\<exists>b. cm (buf_vec cache ! (idx_vec cache ! m)) = Some b \<and>
           (buf (bnd_info_h cache ! (idx_vec cache ! m)) \<noteq> buffer b \<or>
            (state b = received \<and> \<not> allocated (bnd_info_h cache ! (idx_vec cache ! m))) \<or>
            (state b = received_null \<and> allocated (bnd_info_h cache ! (idx_vec cache ! m))))))"

text \<open>The callback of the rebuild as a step on a visited triple.\<close>

definition creator_of ::
  "(MeshBlock \<Rightarrow> NeighborBlock \<Rightarrow> CellVariable \<Rightarrow> CommBuffer \<Rightarrow> BndInfo) \<Rightarrow>
   MeshBlock \<times> NeighborBlock \<times> CellVariable \<Rightarrow> CommBuffer \<Rightarrow> BndInfo" where
  "creator_of BndInfoCreator t b = (case t of (pmb, nb, v) \<Rightarrow> BndInfoCreator pmb nb v b)"

definition rebuild_step ::
  "BvarsSubCache_t \<Rightarrow> comm_map_t \<Rightarrow> (MeshBlock \<Rightarrow> NeighborBlock \<Rightarrow> CellVariable \<Rightarrow> CommBuffer \<Rightarrow> BndInfo) \<Rightarrow>
   MeshBlock \<times> NeighborBlock \<times> CellVariable \<Rightarrow> fault + BndInfo list \<times> nat \<Rightarrow> fault + BndInfo list \<times> nat" where
  "rebuild_step cache cm BndInfoCreator t st =
     (case st of
        Inl e \<Rightarrow> Inl e
      | Inr (info_h, n) \<Rightarrow>
          if n < length (idx_vec cache) then
            if idx_vec cache ! n < length (buf_vec cache) \<and> idx_vec cache ! n < length info_h then
              (case cm (chan_key cache n) of
                 None \<Rightarrow> Inl DanglingPointer
               | Some b \<Rightarrow> Inr (info_h[idx_vec cache ! n := creator_of BndInfoCreator t b], Suc n))
            else Inl OutOfBounds
          else Inl OutOfBounds)"

text \<open>The bodies of the innermost loops of \<^verbatim>\<open>PackData\<close> and \<^verbatim>\<open>UnpackData\<close>.\<close>

definition pack_step :: "('i \<Rightarrow> 'a) \<Rightarrow> 'i \<Rightarrow> (nat \<Rightarrow> 'a) \<times> nat \<Rightarrow> (nat \<Rightarrow> 'a) \<times> nat" where
  "pack_step src idx s = ((fst s)(snd s := src idx), Suc (snd s))"

definition unpack_step :: "(nat \<Rightarrow> 'a) \<Rightarrow> 'i \<Rightarrow> ('i \<Rightarrow> 'a) \<times> nat \<Rightarrow> ('i \<Rightarrow> 'a) \<times> nat" where
  "unpack_step b idx s = ((fst s)(idx := b (snd s)), Suc (snd s))"

text \<open>The extent of an index box along each axis.\<close>

fun extents :: "index_box \<Rightarrow> int \<times> int \<times> int" where
  "extents (si, ei, sj, ej, sk, ek) = (ei - si, ej - sj, ek - sk)"

section \<open>Properties of the enumerator\<close>

lemma neighbor_loop_void:
  "neighbor_loop bound my_rank (func_caller_void f) pmb rc v nbs s =
     (cont, fold (\<lambda>nb. f pmb rc nb v) (filter (\<lambda>nb. \<not> skip_neighbor bound my_rank pmb nb) nbs) s)"
  by (induction nbs arbitrary: s) (simp_all add: func_caller_void_def)

lemma variable_loop_void:
  "variable_loop bound my_rank (func_caller_void f) pmb rc vs s =
     (cont, fold (\<lambda>v. fold (\<lambda>nb. f pmb rc nb v)
                        (filter (\<lambda>nb. \<not> skip_neighbor bound my_rank pmb nb) (neighbor pmb)))
                 (filter FillGhost vs) s)"
  by (induction vs arbitrary: s) (simp_all add: neighbor_loop_void)

lemma block_loop_void:
  "block_loop bound my_rank (func_caller_void f) md s =
     (cont, fold (\<lambda>rc. fold (\<lambda>v. fold (\<lambda>nb. f (GetBlockPointer rc) rc nb v)
                        (filter (\<lambda>nb. \<not> skip_neighbor bound my_rank (GetBlockPointer rc) nb)
                                (neighbor (GetBlockPointer rc))))
                 (filter FillGhost (GetCellVariableVector rc))) md s)"
  by (induction md arbitrary: s) (simp_all add: variable_loop_void)

lemma fold_record:
  "fold (\<lambda>x acc. acc @ [g x]) xs acc = acc @ map g xs"
  by (induction xs arbitrary: acc) simp_all

lemma fold_fold_record:
  "fold (\<lambda>v. fold (\<lambda>nb acc. acc @ [g nb v]) (h v)) vs acc =
     acc @ concat (map (\<lambda>v. map (\<lambda>nb. g nb v) (h v)) vs)"
  by (induction vs arbitrary: acc) (simp_all add: fold_record)

lemma fold_fold_fold_record:
  "fold (\<lambda>rc. fold (\<lambda>v. fold (\<lambda>nb acc. acc @ [g rc nb v]) (h rc)) (k rc)) md acc =
     acc @ concat (map (\<lambda>rc. concat (map (\<lambda>v. map (\<lambda>nb. g rc nb v) (h rc)) (k rc))) md)"
  by (induction md arbitrary: acc) (simp_all add: fold_fold_record)

lemma visited_eq:
  "visited bound my_rank md = triples (\<lambda>pmb nb. \<not> skip_neighbor bound my_rank pmb nb) md"
  unfolding visited_def ForEachBoundary_def record_boundary_def block_loop_void triples_def
  by (simp add: fold_fold_fold_record)

lemma triples_cong:
  assumes "\<And>rc nb. rc \<in> set md \<Longrightarrow> nb \<in> set (neighbor (GetBlockPointer rc)) \<Longrightarrow>
             keep (GetBlockPointer rc) nb = keep' (GetBlockPointer rc) nb"
  shows "triples keep md = triples keep' md"
proof -
  have "\<And>rc. rc \<in> set md \<Longrightarrow>
          filter (keep (GetBlockPointer rc)) (neighbor (GetBlockPointer rc)) =
          filter (keep' (GetBlockPointer rc)) (neighbor (GetBlockPointer rc))"
    using assms by (auto intro: filter_cong)
  then show ?thesis
    unfolding triples_def by (auto intro!: arg_cong[where f=concat] map_cong)
qed

lemma one_nonzero:
  "offsets_in_range nb \<Longrightarrow>
     (\<bar>ox1 (ni nb)\<bar> + \<bar>ox2 (ni nb)\<bar> + \<bar>ox3 (ni nb)\<bar> = 1) = (nonzero_offsets nb = 1)"
  by (auto simp: offsets_in_range_def nonzero_offsets_def)

text \<open>
  Claim C7. The enumerator calls the callback on exactly the triples (block, neighbour,
  variable) whose variable has \<^verbatim>\<open>FillGhost\<close> set and whose neighbour passes the
  subset's test, in the order blocks, variables, neighbours: no test for \<open>any\<close>; the
  neighbour's rank equal to this process's for \<open>local\<close>, different for \<open>nonlocal\<close>;
  and, the offsets of all neighbours lying in \<open>{-1, 0, 1}\<close>, a neighbour one level
  below the block's (coarser) with exactly one nonzero offset for \<open>flxcor_send\<close>, one
  level above (finer) with exactly one nonzero offset for \<open>flxcor_recv\<close>.
\<close>

theorem ForEachBoundary_visits:
  "visited any my_rank md = triples (\<lambda>pmb nb. True) md \<and>
   visited local my_rank md = triples (\<lambda>pmb nb. rank (snb nb) = my_rank) md \<and>
   visited nonlocal my_rank md = triples (\<lambda>pmb nb. rank (snb nb) \<noteq> my_rank) md \<and>
   ((\<forall>rc \<in> set md. \<forall>nb \<in> set (neighbor (GetBlockPointer rc)). offsets_in_range nb) \<longrightarrow>
      visited flxcor_send my_rank md =
        triples (\<lambda>pmb nb. SimpleNeighborBlock.level (snb nb) = LogicalLocation.level (loc pmb) - 1 \<and>
                          nonzero_offsets nb = 1) md \<and>
      visited flxcor_recv my_rank md =
        triples (\<lambda>pmb nb. SimpleNeighborBlock.level (snb nb) = LogicalLocation.level (loc pmb) + 1 \<and>
                          nonzero_offsets nb = 1) md)"
proof (intro conjI impI)
  show "visited any my_rank md = triples (\<lambda>pmb nb. True) md"
    by (simp add: visited_eq skip_neighbor_def)
  show "visited local my_rank md = triples (\<lambda>pmb nb. rank (snb nb) = my_rank) md"
    by (simp add: visited_eq skip_neighbor_def)
  show "visited nonlocal my_rank md = triples (\<lambda>pmb nb. rank (snb nb) \<noteq> my_rank) md"
    by (simp add: visited_eq skip_neighbor_def)
next
  assume r: "\<forall>rc \<in> set md. \<forall>nb \<in> set (neighbor (GetBlockPointer rc)). offsets_in_range nb"
  show "visited flxcor_send my_rank md =
        triples (\<lambda>pmb nb. SimpleNeighborBlock.level (snb nb) = LogicalLocation.level (loc pmb) - 1 \<and>
                          nonzero_offsets nb = 1) md"
    unfolding visited_eq
    by (rule triples_cong) (use r in \<open>auto simp: skip_neighbor_def one_nonzero\<close>)
  show "visited flxcor_recv my_rank md =
        triples (\<lambda>pmb nb. SimpleNeighborBlock.level (snb nb) = LogicalLocation.level (loc pmb) + 1 \<and>
                          nonzero_offsets nb = 1) md"
    unfolding visited_eq
    by (rule triples_cong) (use r in \<open>auto simp: skip_neighbor_def one_nonzero\<close>)
qed

text \<open>
  A block at level 1 with a same-level face neighbour on this rank, a coarser and a finer
  face neighbour on another rank and a coarser edge neighbour on this rank, and two
  variables of which only \<open>rho\<close> exchanges ghost cells: the five subsets, each visit
  shown by the neighbour's id and the variable's label.
\<close>

theorem ForEachBoundary_visits_witness:
  "map (\<lambda>(pmb, nb, v). (SimpleNeighborBlock.gid (snb nb), label v)) (visited any 0 ex_md) =
     [(1, ''rho''), (2, ''rho''), (3, ''rho''), (4, ''rho'')] \<and>
   map (\<lambda>(pmb, nb, v). (SimpleNeighborBlock.gid (snb nb), label v)) (visited local 0 ex_md) =
     [(1, ''rho''), (4, ''rho'')] \<and>
   map (\<lambda>(pmb, nb, v). (SimpleNeighborBlock.gid (snb nb), label v)) (visited nonlocal 0 ex_md) =
     [(2, ''rho''), (3, ''rho'')] \<and>
   map (\<lambda>(pmb, nb, v). (SimpleNeighborBlock.gid (snb nb), label v)) (visited flxcor_send 0 ex_md) =
     [(2, ''rho'')] \<and>
   map (\<lambda>(pmb, nb, v). (SimpleNeighborBlock.gid (snb nb), label v)) (visited flxcor_recv 0 ex_md) =
     [(3, ''rho'')]"
  using ForEachBoundary_visits [of 0 ex_md]
  by (simp add: triples_def ex_md_def ex_nbs_def ex_block_def ex_nb_def ex_ni_def ex_var_def
      offsets_in_range_def nonzero_offsets_def)

section \<open>Properties of the addressing\<close>

text \<open>
  Claim C1. Let block A hold a neighbour relation towards block B and B one towards A
  with the negated offsets, and let the variable carry the same label on both blocks.
  Then \<^verbatim>\<open>SendKey\<close> at A is \<^verbatim>\<open>ReceiveKey\<close> at B, and \<^verbatim>\<open>ReceiveKey\<close> at A is
  \<^verbatim>\<open>SendKey\<close> at B. Nothing is asked of the offsets or of the connectivity types, so
  this covers every combination of offsets in \<open>{-1, 0, 1}\<close> and every type.
\<close>

theorem SendKey_ReceiveKey_symmetry:
  assumes "SimpleNeighborBlock.gid (snb nbA) = MeshBlock.gid B"
    and "SimpleNeighborBlock.gid (snb nbB) = MeshBlock.gid A"
    and "ox1 (ni nbB) = - ox1 (ni nbA)"
    and "ox2 (ni nbB) = - ox2 (ni nbA)"
    and "ox3 (ni nbB) = - ox3 (ni nbA)"
    and "label vB = label vA"
  shows "SendKey A nbA vA = ReceiveKey B nbB vB \<and> ReceiveKey A nbA vA = SendKey B nbB vB"
  using assms by (simp add: SendKey_def ReceiveKey_def)

theorem SendKey_ReceiveKey_symmetry_witness:
  "SendKey (ex_block 7 0 4 4 4 []) (ex_nb 9 0 0 (ex_ni 1 0 (-1) edge)) (ex_var ''rho'' True True) =
     ReceiveKey (ex_block 9 0 4 4 4 []) (ex_nb 7 0 0 (ex_ni (-1) 0 1 edge)) (ex_var ''rho'' True False) \<and>
   ReceiveKey (ex_block 7 0 4 4 4 []) (ex_nb 9 0 0 (ex_ni 1 0 (-1) edge)) (ex_var ''rho'' True True) =
     SendKey (ex_block 9 0 4 4 4 []) (ex_nb 7 0 0 (ex_ni (-1) 0 1 edge)) (ex_var ''rho'' True False) \<and>
   SendKey (ex_block 7 0 4 4 4 []) (ex_nb 9 0 0 (ex_ni 1 0 (-1) edge)) (ex_var ''rho'' True True) =
     (7, 9, ''rho'', 5)"
  using SendKey_ReceiveKey_symmetry
    [of "ex_nb 9 0 0 (ex_ni 1 0 (-1) edge)" "ex_block 9 0 4 4 4 []"
        "ex_nb 7 0 0 (ex_ni (-1) 0 1 edge)" "ex_block 7 0 4 4 4 []"
        "ex_var ''rho'' True False" "ex_var ''rho'' True True"]
  by (simp add: ex_block_def ex_nb_def ex_ni_def ex_var_def SendKey_def)

section \<open>Properties of the flux-correction sizes\<close>

text \<open>
  Claim C6. In three dimensions (\<open>nx3 > 1\<close>) the flux-correction buffer size of a face
  relation is \<open>(nx2+1)*nx3 + nx2*(nx3+1)\<close> when its offset lies along axis 1,
  \<open>(nx1+1)*nx3 + nx1*(nx3+1)\<close> along axis 2 and \<open>(nx1+1)*nx2 + nx1*(nx2+1)\<close> along
  axis 3. For a corner relation the computed size is not positive, and the channel setup
  creates no flux-correction request for it.
\<close>

theorem flux_correction_size:
  "(type (ni nb) = face \<and> nx3 (block_size pmb) > 1 \<and> ox1 (ni nb) \<noteq> 0 \<longrightarrow>
      ComputeFluxCorrectionBufferSize pmb (ni nb) cng =
        (nx2 (block_size pmb) + 1) * nx3 (block_size pmb) +
        nx2 (block_size pmb) * (nx3 (block_size pmb) + 1)) \<and>
   (type (ni nb) = face \<and> nx3 (block_size pmb) > 1 \<and> ox1 (ni nb) = 0 \<and> ox2 (ni nb) \<noteq> 0 \<longrightarrow>
      ComputeFluxCorrectionBufferSize pmb (ni nb) cng =
        (nx1 (block_size pmb) + 1) * nx3 (block_size pmb) +
        nx1 (block_size pmb) * (nx3 (block_size pmb) + 1)) \<and>
   (type (ni nb) = face \<and> nx3 (block_size pmb) > 1 \<and> ox1 (ni nb) = 0 \<and> ox2 (ni nb) = 0 \<and>
    ox3 (ni nb) \<noteq> 0 \<longrightarrow>
      ComputeFluxCorrectionBufferSize pmb (ni nb) cng =
        (nx1 (block_size pmb) + 1) * nx2 (block_size pmb) +
        nx1 (block_size pmb) * (nx2 (block_size pmb) + 1)) \<and>
   (type (ni nb) = corner \<longrightarrow>
      ComputeFluxCorrectionBufferSize pmb (ni nb) cng \<le> 0 \<and>
      SetupPersistentMPI_flcor mpi_parallel my_rank edge_flag pmb nb size_in f2csize_in = [])"
  by (simp add: ComputeFluxCorrectionBufferSize_def SetupPersistentMPI_flcor_def flcor_sizes_def Let_def)

theorem flux_correction_size_witness:
  "ComputeFluxCorrectionBufferSize (ex_block 0 1 4 6 8 []) (ni (ex_nb 1 1 0 (ex_ni (-1) 0 0 face))) 2 = 110 \<and>
   ComputeFluxCorrectionBufferSize (ex_block 0 1 4 6 8 []) (ni (ex_nb 1 1 0 (ex_ni 0 1 0 face))) 2 = 76 \<and>
   ComputeFluxCorrectionBufferSize (ex_block 0 1 4 6 8 []) (ni (ex_nb 1 1 0 (ex_ni 0 0 1 face))) 2 = 58 \<and>
   ComputeFluxCorrectionBufferSize (ex_block 0 1 4 6 8 []) (ni (ex_nb 1 1 0 (ex_ni 1 (-1) 1 corner))) 2 \<le> 0 \<and>
   SetupPersistentMPI_flcor True 0 (\<lambda>e. True) (ex_block 0 1 4 6 8 [])
     (ex_nb 1 1 0 (ex_ni 1 (-1) 1 corner)) 300 7 = []"
  using flux_correction_size [of "ex_nb 1 1 0 (ex_ni (-1) 0 0 face)" "ex_block 0 1 4 6 8 []" 2]
    flux_correction_size [of "ex_nb 1 1 0 (ex_ni 0 1 0 face)" "ex_block 0 1 4 6 8 []" 2]
    flux_correction_size [of "ex_nb 1 1 0 (ex_ni 0 0 1 face)" "ex_block 0 1 4 6 8 []" 2]
    flux_correction_size [of "ex_nb 1 1 0 (ex_ni 1 (-1) 1 corner)" "ex_block 0 1 4 6 8 []" 2
       True 0 "\<lambda>e. True" 300 7]
  by (simp add: ex_block_def ex_nb_def ex_ni_def)

section \<open>Properties of the cache construction\<close>

text \<open>
  A callback that returns nothing and does not look at the block data makes
  \<^verbatim>\<open>ForEachBoundary\<close> a fold over the visited triples.
\<close>

lemma fold_concat_map:
  "fold g (concat (map h xs)) = fold (\<lambda>x. fold g (h x)) xs"
  by (induction xs) (simp_all add: fun_eq_iff)

lemma ForEachBoundary_void:
  "ForEachBoundary bound my_rank md (func_caller_void (\<lambda>pmb rc nb v. g (pmb, nb, v))) s =
     fold g (visited bound my_rank md) s"
  unfolding visited_eq triples_def ForEachBoundary_def block_loop_void
  by (simp add: fold_concat_map fold_map comp_def)

lemma collect_key_step:
  "collect_key debug KeyFunc cm pmb rc nb v = collect_step debug KeyFunc cm (pmb, nb, v)"
  by (auto simp: fun_eq_iff collect_key_def collect_step_def key_of_def Let_def split: sum.splits)

lemma collect_step_Inl [simp]: "collect_step debug KeyFunc cm t (Inl e) = Inl e"
  by (simp add: collect_step_def)

lemma collect_step_Inr:
  "collect_step debug KeyFunc cm t (Inr (ko, n)) =
     (if debug \<and> cm (key_of KeyFunc t) = None then Inl RequireFailed
      else Inr (ko @ [(27 * fst (snd (key_of KeyFunc t)) + snd (snd (snd (key_of KeyFunc t))), n,
                       key_of KeyFunc t)], Suc n))"
  by (simp add: collect_step_def)

lemma collect_fold_Inl [simp]: "fold (collect_step debug KeyFunc cm) xs (Inl e) = Inl e"
  by (induction xs) simp_all

lemma collect_key_fold:
  "fold (collect_step debug KeyFunc cm) xs (Inr (ko, n)) = Inr (ko', n') \<Longrightarrow>
     n' = n + length xs \<and>
     map (\<lambda>t. snd (snd t)) ko' = map (\<lambda>t. snd (snd t)) ko @ map (key_of KeyFunc) xs \<and>
     map (\<lambda>t. fst (snd t)) ko' = map (\<lambda>t. fst (snd t)) ko @ [n..<n + length xs]"
proof (induction xs arbitrary: ko n)
  case Nil
  then show ?case by simp
next
  case (Cons x xs)
  show ?case
  proof (cases "debug \<and> cm (key_of KeyFunc x) = None")
    case True
    with Cons.prems show ?thesis
      by (simp add: collect_step_Inr)
  next
    case False
    with Cons.prems have
      "fold (collect_step debug KeyFunc cm) xs
         (Inr (ko @ [(27 * fst (snd (key_of KeyFunc x)) + snd (snd (snd (key_of KeyFunc x))), n,
                      key_of KeyFunc x)], Suc n)) = Inr (ko', n')"
      by (simp add: collect_step_Inr)
    note ih = Cons.IH [OF this]
    have "[n..<n + length (x # xs)] = n # [Suc n..<Suc n + length xs]"
      by (subst upt_rec) (simp del: upt_Suc)
    with ih show ?thesis
      by (simp del: upt_Suc)
  qed
qed

lemma collect_key_fold_ok:
  "debug \<longrightarrow> (\<forall>x \<in> set xs. cm (key_of KeyFunc x) \<noteq> None) \<Longrightarrow>
     \<exists>ko' n'. fold (collect_step debug KeyFunc cm) xs (Inr (ko, n)) = Inr (ko', n')"
  by (induction xs arbitrary: ko n) (auto simp: collect_step_Inr)

lemma place_buffer_Inl [simp]: "place_buffer c0 t (Inl e) = Inl e"
  by (simp add: place_buffer_def)

lemma place_buffer_Inr:
  "place_buffer c0 t (Inr (bv, iv, i, cm)) =
     (if fst (snd t) < length iv
      then Inr (bv @ [snd (snd t)], iv[fst (snd t) := i], Suc i,
                if cm (snd (snd t)) = None then cm(snd (snd t) \<mapsto> c0) else cm)
      else Inl OutOfBounds)"
  by (simp add: place_buffer_def Let_def)

lemma place_fold:
  assumes "\<forall>t \<in> set ts. fst (snd t) < length iv"
    and "distinct (map (\<lambda>t. fst (snd t)) ts)"
  shows "\<exists>iv' cm'. fold (place_buffer c0) ts (Inr (bv, iv, i, cm)) =
            Inr (bv @ map (\<lambda>t. snd (snd t)) ts, iv', i + length ts, cm') \<and>
          length iv' = length iv \<and>
          (\<forall>j < length ts. iv' ! fst (snd (ts ! j)) = i + j) \<and>
          (\<forall>m. m \<notin> (\<lambda>t. fst (snd t)) ` set ts \<longrightarrow> iv' ! m = iv ! m) \<and>
          dom cm' = dom cm \<union> (\<lambda>t. snd (snd t)) ` set ts \<and>
          (\<forall>k \<in> dom cm. cm' k = cm k)"
  using assms
proof (induction ts arbitrary: bv iv i cm)
  case Nil
  then show ?case by simp
next
  case (Cons t ts)
  let ?iv1 = "iv[fst (snd t) := i]"
  let ?cm1 = "if cm (snd (snd t)) = None then cm(snd (snd t) \<mapsto> c0) else cm"
  have b: "fst (snd t) < length iv" using Cons.prems by simp
  have p1: "\<forall>t \<in> set ts. fst (snd t) < length ?iv1" using Cons.prems by simp
  have p2: "distinct (map (\<lambda>t. fst (snd t)) ts)" using Cons.prems by simp
  have notin: "fst (snd t) \<notin> (\<lambda>t. fst (snd t)) ` set ts" using Cons.prems by auto
  from Cons.IH [OF p1 p2, of "bv @ [snd (snd t)]" "Suc i" ?cm1]
  obtain iv' cm' where
    f: "fold (place_buffer c0) ts (Inr (bv @ [snd (snd t)], ?iv1, Suc i, ?cm1)) =
          Inr ((bv @ [snd (snd t)]) @ map (\<lambda>t. snd (snd t)) ts, iv', Suc i + length ts, cm')"
    and l: "length iv' = length ?iv1"
    and ix: "\<forall>j < length ts. iv' ! fst (snd (ts ! j)) = Suc i + j"
    and fr: "\<forall>m. m \<notin> (\<lambda>t. fst (snd t)) ` set ts \<longrightarrow> iv' ! m = ?iv1 ! m"
    and d: "dom cm' = dom ?cm1 \<union> (\<lambda>t. snd (snd t)) ` set ts"
    and k: "\<forall>k \<in> dom ?cm1. cm' k = ?cm1 k"
    by (elim exE conjE)
  have head: "iv' ! fst (snd t) = i" using fr notin b by simp
  have ix': "\<forall>j < length (t # ts). iv' ! fst (snd ((t # ts) ! j)) = i + j"
  proof (intro allI impI)
    fix j assume "j < length (t # ts)"
    then show "iv' ! fst (snd ((t # ts) ! j)) = i + j"
      using head ix by (cases j) simp_all
  qed
  have fr': "\<forall>m. m \<notin> (\<lambda>t. fst (snd t)) ` set (t # ts) \<longrightarrow> iv' ! m = iv ! m"
    using fr by auto
  have d': "dom cm' = dom cm \<union> (\<lambda>t. snd (snd t)) ` set (t # ts)"
    using d by (auto split: if_splits)
  have k': "\<forall>k \<in> dom cm. cm' k = cm k"
    using k by (auto split: if_splits)
  have st: "place_buffer c0 t (Inr (bv, iv, i, cm)) = Inr (bv @ [snd (snd t)], ?iv1, Suc i, ?cm1)"
    using b by (simp add: place_buffer_Inr)
  have f': "fold (place_buffer c0) (t # ts) (Inr (bv, iv, i, cm)) =
          Inr (bv @ map (\<lambda>t. snd (snd t)) (t # ts), iv', i + length (t # ts), cm')"
    using f by (simp only: fold_simps st comp_apply) simp
  have l': "length iv' = length iv" using l by simp
  show ?case
    using f' l' ix' fr' d' k' by blast
qed

lemma collect_key_eq:
  "collect_key debug KeyFunc cm = (\<lambda>pmb rc nb v. collect_step debug KeyFunc cm (pmb, nb, v))"
  by (intro ext) (simp add: collect_key_step)

lemma BuildBufferCache_fold:
  "BuildBufferCache bound my_rank debug c0 shuffle md cm KeyFunc =
     (case fold (collect_step debug KeyFunc cm) (visited bound my_rank md) (Inr ([], 0)) of
        Inl e \<Rightarrow> Inl e
      | Inr (key_order, boundary_idx) \<Rightarrow>
          (let shuffled = shuffle key_order in
           case fold (place_buffer c0) shuffled
                  (Inr ([], replicate (length shuffled) 0, 0, cm)) of
             Inl e \<Rightarrow> Inl e
           | Inr (pbuf_vec, pidx_vec, buff_idx, cm') \<Rightarrow> Inr (pbuf_vec, pidx_vec, cm')))"
  unfolding BuildBufferCache_def collect_key_eq ForEachBoundary_void
  by (rule refl)

lemma perm_of_inverse:
  assumes len: "length iv = N"
    and inv: "\<forall>j < N. \<exists>n < N. iv ! n = j"
  shows "distinct iv \<and> set iv = {..<N}"
proof -
  have sub: "{..<N} \<subseteq> set iv"
  proof
    fix j assume "j \<in> {..<N}"
    then obtain n where "n < N" "iv ! n = j" using inv by auto
    then show "j \<in> set iv" using len by (auto simp: in_set_conv_nth)
  qed
  have "card (set iv) \<le> length iv" by (rule card_length)
  moreover have "card {..<N} \<le> card (set iv)" by (rule card_mono [OF finite_set sub])
  ultimately have c: "card (set iv) = length iv" using len by simp
  then have d: "distinct iv" by (simp add: card_distinct)
  have "set iv = {..<N}"
    using sub c len by (metis card_lessThan card_subset_eq finite_set)
  with d show ?thesis by simp
qed

lemma BuildBufferCache_props:
  assumes sh: "\<forall>ks. mset (shuffle ks) = mset ks"
    and build: "BuildBufferCache bound my_rank debug c0 shuffle md cm KeyFunc = Inr (bv, iv, cm')"
  shows "length bv = length (visited bound my_rank md) \<and>
         length iv = length (visited bound my_rank md) \<and>
         distinct iv \<and> set iv = {..<length (visited bound my_rank md)} \<and>
         (\<forall>n < length (visited bound my_rank md).
            bv ! (iv ! n) = key_of KeyFunc (visited bound my_rank md ! n)) \<and>
         set bv \<subseteq> dom cm' \<and> (\<forall>k \<in> dom cm. cm' k = cm k)"
proof -
  let ?xs = "visited bound my_rank md"
  let ?N = "length ?xs"
  from build obtain ko n where
    c: "fold (collect_step debug KeyFunc cm) ?xs (Inr ([], 0)) = Inr (ko, n)"
    by (auto simp: BuildBufferCache_fold Let_def split: sum.splits)
  from collect_key_fold [OF c] have
    keys: "map (\<lambda>t. snd (snd t)) ko = map (key_of KeyFunc) ?xs"
    and idxs: "map (\<lambda>t. fst (snd t)) ko = [0..<?N]"
    by simp_all
  let ?ts = "shuffle ko"
  have ms: "mset ?ts = mset ko" using sh by simp
  have lko: "length ko = ?N" using keys by (metis length_map)
  have lts: "length ?ts = ?N" using ms lko by (metis size_mset)
  have sts: "set ?ts = set ko" using ms by (metis set_mset_mset)
  have "mset (map (\<lambda>t. fst (snd t)) ?ts) = mset [0..<?N]"
    using ms idxs by (metis mset_map)
  then have dts: "distinct (map (\<lambda>t. fst (snd t)) ?ts)"
    by (metis distinct_upt mset_eq_imp_distinct_iff)
  have bts: "\<forall>t \<in> set ?ts. fst (snd t) < length (replicate ?N (0::nat))"
  proof
    fix t assume "t \<in> set ?ts"
    then have "fst (snd t) \<in> set (map (\<lambda>t. fst (snd t)) ko)" using sts by auto
    then show "fst (snd t) < length (replicate ?N (0::nat))" using idxs by simp
  qed
  from place_fold [OF bts dts, of c0 "[]" 0 cm] obtain iv' cm'' where
    f: "fold (place_buffer c0) ?ts (Inr ([], replicate ?N 0, 0, cm)) =
          Inr ([] @ map (\<lambda>t. snd (snd t)) ?ts, iv', 0 + length ?ts, cm'')"
    and l: "length iv' = length (replicate ?N (0::nat))"
    and ix: "\<forall>j < length ?ts. iv' ! fst (snd (?ts ! j)) = 0 + j"
    and d: "dom cm'' = dom cm \<union> (\<lambda>t. snd (snd t)) ` set ?ts"
    and k: "\<forall>k \<in> dom cm. cm'' k = cm k"
    by (elim exE conjE)
  from build c f lts have res: "bv = map (\<lambda>t. snd (snd t)) ?ts" "iv = iv'" "cm' = cm''"
    by (simp_all add: BuildBufferCache_fold Let_def)
  have lbv: "length bv = ?N" using res lts by simp
  have liv: "length iv = ?N" using res l by simp
  have slot: "\<forall>j < ?N. fst (snd (?ts ! j)) < ?N \<and> iv ! fst (snd (?ts ! j)) = j"
    using ix bts lts res by simp
  have inv: "\<forall>j < ?N. \<exists>n < ?N. iv ! n = j"
    using slot by blast
  have perm: "distinct iv \<and> set iv = {..<?N}"
    by (rule perm_of_inverse [OF liv inv])
  have at: "\<forall>n < ?N. bv ! (iv ! n) = key_of KeyFunc (?xs ! n)"
  proof (intro allI impI)
    fix n assume n: "n < ?N"
    have kon: "fst (snd (ko ! n)) = n" "snd (snd (ko ! n)) = key_of KeyFunc (?xs ! n)"
      using n lko idxs keys
      by (metis (no_types, lifting) nth_map nth_upt add_0)+
    have "ko ! n \<in> set ?ts" using n lko sts by simp
    then obtain j where j: "j < ?N" "?ts ! j = ko ! n"
      using lts by (auto simp: in_set_conv_nth)
    then have "iv ! n = j" using slot kon by metis
    moreover have "bv ! j = snd (snd (?ts ! j))" using res j lts by simp
    ultimately show "bv ! (iv ! n) = key_of KeyFunc (?xs ! n)" using j kon by simp
  qed
  have dm: "set bv \<subseteq> dom cm'" using res d by auto
  show ?thesis using lbv liv perm at dm k res by simp
qed

lemma BuildBufferCache_returns:
  assumes sh: "\<forall>ks. mset (shuffle ks) = mset ks"
    and pre: "debug \<longrightarrow> (\<forall>x \<in> set (visited bound my_rank md). cm (key_of KeyFunc x) \<noteq> None)"
  shows "\<exists>bv iv cm'. BuildBufferCache bound my_rank debug c0 shuffle md cm KeyFunc = Inr (bv, iv, cm')"
proof -
  let ?xs = "visited bound my_rank md"
  let ?N = "length ?xs"
  from collect_key_fold_ok [OF pre] obtain ko n where
    c: "fold (collect_step debug KeyFunc cm) ?xs (Inr ([], 0)) = Inr (ko, n)"
    by blast
  from collect_key_fold [OF c] have
    keys: "map (\<lambda>t. snd (snd t)) ko = map (key_of KeyFunc) ?xs"
    and idxs: "map (\<lambda>t. fst (snd t)) ko = [0..<?N]"
    by simp_all
  let ?ts = "shuffle ko"
  have ms: "mset ?ts = mset ko" using sh by simp
  have lko: "length ko = ?N" using keys by (metis length_map)
  have lts: "length ?ts = ?N" using ms lko by (metis size_mset)
  have sts: "set ?ts = set ko" using ms by (metis set_mset_mset)
  have "mset (map (\<lambda>t. fst (snd t)) ?ts) = mset [0..<?N]"
    using ms idxs by (metis mset_map)
  then have dts: "distinct (map (\<lambda>t. fst (snd t)) ?ts)"
    by (metis distinct_upt mset_eq_imp_distinct_iff)
  have bts: "\<forall>t \<in> set ?ts. fst (snd t) < length (replicate ?N (0::nat))"
  proof
    fix t assume "t \<in> set ?ts"
    then have "fst (snd t) \<in> set (map (\<lambda>t. fst (snd t)) ko)" using sts by auto
    then show "fst (snd t) < length (replicate ?N (0::nat))" using idxs by simp
  qed
  from place_fold [OF bts dts, of c0 "[]" 0 cm] obtain iv' cm'' where
    f: "fold (place_buffer c0) ?ts (Inr ([], replicate ?N 0, 0, cm)) =
          Inr ([] @ map (\<lambda>t. snd (snd t)) ?ts, iv', 0 + length ?ts, cm'')"
    by (elim exE conjE)
  show ?thesis using c f lts by (simp add: BuildBufferCache_fold Let_def)
qed

text \<open>
  Claim C8. Let \<^verbatim>\<open>std::shuffle\<close> permute its argument, whatever the order it picks, and
  let every key be in the communication map where the debug check is compiled in (the
  check aborts otherwise). Then \<^verbatim>\<open>BuildBufferCache\<close> over a subset that enumerates
  \<open>N\<close> boundaries returns, with \<open>N\<close> channel pointers and \<open>N\<close> remap entries that are
  a permutation of \<open>0, ..., N-1\<close>; the slot of the \<open>n\<close>-th boundary holds the pointer to
  the channel of its key.
\<close>

theorem BuildBufferCache_permutation:
  assumes "\<forall>ks. mset (shuffle ks) = mset ks"
    and "debug \<longrightarrow> (\<forall>t \<in> set (visited bound my_rank md). cm (key_of KeyFunc t) \<noteq> None)"
  shows "\<exists>bv iv cm'.
           BuildBufferCache bound my_rank debug c0 shuffle md cm KeyFunc = Inr (bv, iv, cm') \<and>
           length bv = length (visited bound my_rank md) \<and>
           length iv = length (visited bound my_rank md) \<and>
           distinct iv \<and> set iv = {..<length (visited bound my_rank md)} \<and>
           (\<forall>n < length (visited bound my_rank md).
              bv ! (iv ! n) = key_of KeyFunc (visited bound my_rank md ! n))"
proof -
  from BuildBufferCache_returns [OF assms, of c0] obtain bv iv cm' where
    b: "BuildBufferCache bound my_rank debug c0 shuffle md cm KeyFunc = Inr (bv, iv, cm')"
    by (elim exE)
  from BuildBufferCache_props [OF assms(1) b] b show ?thesis
    by (intro exI [of _ bv] exI [of _ iv] exI [of _ cm']) simp
qed

lemma visited_ex_md_any:
  "length (visited any 0 ex_md) = 4"
  by (simp add: visited_eq triples_def ex_md_def ex_nbs_def ex_block_def ex_var_def skip_neighbor_def)

theorem BuildBufferCache_permutation_witness:
  "\<exists>bv iv cm'.
     BuildBufferCache any 0 False \<lparr>state = available, buffer = 0\<rparr> rev ex_md Map.empty SendKey =
       Inr (bv, iv, cm') \<and>
     length bv = 4 \<and> length iv = 4 \<and> distinct iv \<and> set iv = {..<4}"
proof -
  have sh: "\<forall>ks :: key_order_t. mset (rev ks) = mset ks"
    by simp
  have pre: "False \<longrightarrow> (\<forall>t \<in> set (visited any 0 ex_md). Map.empty (key_of SendKey t) \<noteq> None)"
    by simp
  from BuildBufferCache_permutation
    [where KeyFunc = SendKey and ?c0.0 = "\<lparr>state = available, buffer = 0\<rparr>", OF sh pre]
  obtain bv iv cm' where
    "BuildBufferCache any 0 False \<lparr>state = available, buffer = 0\<rparr> rev ex_md Map.empty SendKey =
       Inr (bv, iv, cm')"
    "length bv = length (visited any 0 ex_md)" "length iv = length (visited any 0 ex_md)"
    "distinct iv" "set iv = {..<length (visited any 0 ex_md)}"
    by (elim exE conjE)
  then show ?thesis
    by (intro exI [of _ bv] exI [of _ iv] exI [of _ cm']) (simp add: visited_ex_md_any)
qed

section \<open>Properties of the validation\<close>

lemma check_send_body_eq:
  "check_send_body ops cache = (\<lambda>pmb rc nb v. send_step ops cache (pmb, nb, v))"
  by (intro ext)
    (auto simp: check_send_body_def send_step_def chan_op_def chan_key_def Let_def
      IsAvailableForWrite_def UsingSameResource_def split: sum.splits option.splits)

lemma CheckSend_fold:
  "CheckSendBufferCacheForRebuild ops BOUND_TYPE SENDER my_rank md caches cm =
     (case fold (send_step ops (GetSubCache caches BOUND_TYPE SENDER)) (visited BOUND_TYPE my_rank md)
             (Inr (False, 0, False, cm)) of
        Inl e \<Rightarrow> Inl e
      | Inr (rebuild, nbound, other_communication_unfinished, comm_map') \<Rightarrow>
          Inr ((rebuild, nbound, other_communication_unfinished), comm_map'))"
  unfolding CheckSendBufferCacheForRebuild_def check_send_body_eq ForEachBoundary_void Let_def
  by (rule refl)

lemma send_step_Inl [simp]: "send_step ops cache t (Inl e) = Inl e"
  by (simp add: send_step_def)

lemma send_fold_Inl [simp]: "fold (send_step ops cache) xs (Inl e) = Inl e"
  by (induction xs) simp_all

lemma send_step_Inr:
  "send_step ops cache t (Inr (rb, n, u, cm)) =
     (if n < length (idx_vec cache) then
        if idx_vec cache ! n < length (buf_vec cache) then
          (case cm (chan_key cache n) of
             None \<Rightarrow> Inl DanglingPointer
           | Some b \<Rightarrow>
               Inr (if idx_vec cache ! n < length (bnd_info_h cache)
                    then rb \<or> buf (bnd_info_h cache ! (idx_vec cache ! n)) \<noteq> buffer (chan_op ops t b)
                    else True,
                    Suc n, u \<or> state b \<noteq> available, cm(chan_key cache n \<mapsto> chan_op ops t b)))
        else Inl OutOfBounds
      else Inl OutOfBounds)"
  by (simp add: send_step_def)

lemma check_receive_body_eq:
  "check_receive_body cache cm = (\<lambda>pmb rc nb v. recv_step cache cm (pmb, nb, v))"
  by (intro ext)
    (auto simp: check_receive_body_def recv_step_def chan_key_def Let_def
      GetState_def UsingSameResource_def split: sum.splits option.splits)

lemma CheckReceive_fold:
  "CheckReceiveBufferCacheForRebuild BOUND_TYPE SENDER my_rank md caches cm =
     fold (recv_step (GetSubCache caches BOUND_TYPE SENDER) cm) (visited flxcor_recv my_rank md)
       (Inr (False, 0))"
  unfolding CheckReceiveBufferCacheForRebuild_def check_receive_body_eq ForEachBoundary_void Let_def
  by (rule refl)

lemma recv_step_Inl [simp]: "recv_step cache cm t (Inl e) = Inl e"
  by (simp add: recv_step_def)

lemma recv_fold_Inl [simp]: "fold (recv_step cache cm) xs (Inl e) = Inl e"
  by (induction xs) simp_all

lemma recv_step_Inr:
  "recv_step cache cm t (Inr (rb, n)) =
     (if n < length (idx_vec cache) then
        if idx_vec cache ! n < length (buf_vec cache) then
          (case cm (chan_key cache n) of
             None \<Rightarrow> Inl DanglingPointer
           | Some b \<Rightarrow>
               Inr (if idx_vec cache ! n < length (bnd_info_h cache)
                    then rb \<or> buf (bnd_info_h cache ! (idx_vec cache ! n)) \<noteq> buffer b \<or>
                         (state b = received \<and> \<not> allocated (bnd_info_h cache ! (idx_vec cache ! n))) \<or>
                         (state b = received_null \<and> allocated (bnd_info_h cache ! (idx_vec cache ! n)))
                    else True,
                    Suc n))
        else Inl OutOfBounds
      else Inl OutOfBounds)"
  by (simp add: recv_step_def)

text \<open>The count of a validation that returns, and the bound it needs.\<close>

lemma send_fold_count:
  "fold (send_step ops cache) xs (Inr (rb, n, u, cm)) = Inr (rb', n', u', cm') \<Longrightarrow>
     n' = n + length xs \<and> (xs \<noteq> [] \<longrightarrow> n' \<le> length (idx_vec cache))"
proof (induction xs arbitrary: rb n u cm)
  case Nil
  then show ?case by simp
next
  case (Cons x xs)
  from Cons.prems have n: "n < length (idx_vec cache)"
    by (auto simp: send_step_Inr split: if_splits)
  from Cons.prems obtain rb1 u1 cm1 where
    "fold (send_step ops cache) xs (Inr (rb1, Suc n, u1, cm1)) = Inr (rb', n', u', cm')"
    by (auto simp: send_step_Inr split: if_splits option.splits)
  from Cons.IH [OF this] n show ?case
    by (cases xs) auto
qed

lemma recv_fold_count:
  "fold (recv_step cache cm) xs (Inr (rb, n)) = Inr (rb', n') \<Longrightarrow>
     n' = n + length xs \<and> (xs \<noteq> [] \<longrightarrow> n' \<le> length (idx_vec cache))"
proof (induction xs arbitrary: rb n)
  case Nil
  then show ?case by simp
next
  case (Cons x xs)
  from Cons.prems have n: "n < length (idx_vec cache)"
    by (auto simp: recv_step_Inr split: if_splits)
  from Cons.prems obtain rb1 where
    "fold (recv_step cache cm) xs (Inr (rb1, Suc n)) = Inr (rb', n')"
    by (auto simp: recv_step_Inr split: if_splits option.splits)
  from Cons.IH [OF this] n show ?case
    by (cases xs) auto
qed

lemma send_fold_oob:
  assumes "\<forall>i \<in> set (idx_vec cache). i < length (buf_vec cache)"
    and "set (buf_vec cache) \<subseteq> dom cm"
    and "n \<le> length (idx_vec cache)"
    and "length (idx_vec cache) < n + length xs"
  shows "fold (send_step ops cache) xs (Inr (rb, n, u, cm)) = Inl OutOfBounds"
  using assms
proof (induction xs arbitrary: rb n u cm)
  case Nil
  then show ?case by simp
next
  case (Cons x xs)
  show ?case
  proof (cases "n < length (idx_vec cache)")
    case False
    then show ?thesis by (simp add: send_step_Inr)
  next
    case True
    then have i: "idx_vec cache ! n < length (buf_vec cache)"
      using Cons.prems(1) by simp
    then have "buf_vec cache ! (idx_vec cache ! n) \<in> set (buf_vec cache)"
      by (rule nth_mem)
    then have "chan_key cache n \<in> dom cm"
      using Cons.prems(2) unfolding chan_key_def by (rule subsetD [rotated])
    then obtain b where b: "cm (chan_key cache n) = Some b" by auto
    have d: "set (buf_vec cache) \<subseteq> dom (cm(chan_key cache n \<mapsto> chan_op ops x b))"
      using Cons.prems(2) by auto
    have "fold (send_step ops cache) xs
            (Inr (if idx_vec cache ! n < length (bnd_info_h cache)
                  then rb \<or> buf (bnd_info_h cache ! (idx_vec cache ! n)) \<noteq> buffer (chan_op ops x b)
                  else True,
                  Suc n, u \<or> state b \<noteq> available, cm(chan_key cache n \<mapsto> chan_op ops x b))) =
          Inl OutOfBounds"
      using Cons.prems(3,4) True by (intro Cons.IH [OF Cons.prems(1) d]) simp_all
    then show ?thesis using True i b by (simp add: send_step_Inr)
  qed
qed

lemma recv_fold_oob:
  assumes "\<forall>i \<in> set (idx_vec cache). i < length (buf_vec cache)"
    and "set (buf_vec cache) \<subseteq> dom cm"
    and "n \<le> length (idx_vec cache)"
    and "length (idx_vec cache) < n + length xs"
  shows "fold (recv_step cache cm) xs (Inr (rb, n)) = Inl OutOfBounds"
  using assms
proof (induction xs arbitrary: rb n)
  case Nil
  then show ?case by simp
next
  case (Cons x xs)
  show ?case
  proof (cases "n < length (idx_vec cache)")
    case False
    then show ?thesis by (simp add: recv_step_Inr)
  next
    case True
    then have i: "idx_vec cache ! n < length (buf_vec cache)"
      using Cons.prems(1) by simp
    then have "buf_vec cache ! (idx_vec cache ! n) \<in> set (buf_vec cache)"
      by (rule nth_mem)
    then have "chan_key cache n \<in> dom cm"
      using Cons.prems(2) unfolding chan_key_def by (rule subsetD [rotated])
    then obtain b where b: "cm (chan_key cache n) = Some b" by auto
    have "\<And>r. fold (recv_step cache cm) xs (Inr (r, Suc n)) = Inl OutOfBounds"
      using Cons.prems(3,4) True by (intro Cons.IH [OF Cons.prems(1,2)]) simp_all
    then show ?thesis using True i b by (simp add: recv_step_Inr)
  qed
qed

text \<open>
  Claim C10. Neither validation checks its position against the length of \<open>idx_vec\<close>
  before it reads \<open>idx_vec[nbound]\<close>. When the enumeration yields more boundaries than
  \<open>idx_vec\<close> has entries, the run ends in a fault, on the send side and on the receive
  side (whose enumeration is the one of \<open>flxcor_recv\<close>); where the slots and pointers the
  cache holds are themselves valid, the fault is the read past the end of \<open>idx_vec\<close>.
  So a validation returns only when the enumerated count is at most the length of
  \<open>idx_vec\<close>.
\<close>

theorem validation_reads_idx_vec_unchecked:
  "(length (idx_vec (GetSubCache caches BOUND_TYPE SENDER)) < length (visited BOUND_TYPE my_rank md) \<longrightarrow>
      (\<exists>e. CheckSendBufferCacheForRebuild ops BOUND_TYPE SENDER my_rank md caches cm = Inl e) \<and>
      ((\<forall>i \<in> set (idx_vec (GetSubCache caches BOUND_TYPE SENDER)).
           i < length (buf_vec (GetSubCache caches BOUND_TYPE SENDER))) \<and>
       set (buf_vec (GetSubCache caches BOUND_TYPE SENDER)) \<subseteq> dom cm \<longrightarrow>
       CheckSendBufferCacheForRebuild ops BOUND_TYPE SENDER my_rank md caches cm = Inl OutOfBounds)) \<and>
   (length (idx_vec (GetSubCache caches BOUND_TYPE SENDER)) < length (visited flxcor_recv my_rank md) \<longrightarrow>
      (\<exists>e. CheckReceiveBufferCacheForRebuild BOUND_TYPE SENDER my_rank md caches cm = Inl e) \<and>
      ((\<forall>i \<in> set (idx_vec (GetSubCache caches BOUND_TYPE SENDER)).
           i < length (buf_vec (GetSubCache caches BOUND_TYPE SENDER))) \<and>
       set (buf_vec (GetSubCache caches BOUND_TYPE SENDER)) \<subseteq> dom cm \<longrightarrow>
       CheckReceiveBufferCacheForRebuild BOUND_TYPE SENDER my_rank md caches cm = Inl OutOfBounds))"
proof (intro conjI impI)
  let ?cache = "GetSubCache caches BOUND_TYPE SENDER"
  {
    assume l: "length (idx_vec ?cache) < length (visited BOUND_TYPE my_rank md)"
    show "\<exists>e. CheckSendBufferCacheForRebuild ops BOUND_TYPE SENDER my_rank md caches cm = Inl e"
    proof (cases "fold (send_step ops ?cache) (visited BOUND_TYPE my_rank md) (Inr (False, 0, False, cm))")
      case (Inl e)
      then show ?thesis by (simp add: CheckSend_fold)
    next
      case (Inr r)
      obtain rb n u cm' where "r = (rb, n, u, cm')" by (cases r) auto
      with Inr send_fold_count [of ops ?cache "visited BOUND_TYPE my_rank md" False 0 False cm rb n u cm'] l
      show ?thesis by (cases "visited BOUND_TYPE my_rank md") auto
    qed
  }
  {
    assume l: "length (idx_vec ?cache) < length (visited BOUND_TYPE my_rank md)"
      and w: "(\<forall>i \<in> set (idx_vec ?cache). i < length (buf_vec ?cache)) \<and> set (buf_vec ?cache) \<subseteq> dom cm"
    from send_fold_oob [of ?cache cm 0 "visited BOUND_TYPE my_rank md" ops False False] l w
    show "CheckSendBufferCacheForRebuild ops BOUND_TYPE SENDER my_rank md caches cm = Inl OutOfBounds"
      by (simp add: CheckSend_fold)
  }
  {
    assume l: "length (idx_vec ?cache) < length (visited flxcor_recv my_rank md)"
    show "\<exists>e. CheckReceiveBufferCacheForRebuild BOUND_TYPE SENDER my_rank md caches cm = Inl e"
    proof (cases "fold (recv_step ?cache cm) (visited flxcor_recv my_rank md) (Inr (False, 0))")
      case (Inl e)
      then show ?thesis by (simp add: CheckReceive_fold)
    next
      case (Inr r)
      obtain rb n where "r = (rb, n)" by (cases r) auto
      with Inr recv_fold_count [of ?cache cm "visited flxcor_recv my_rank md" False 0 rb n] l
      show ?thesis by (cases "visited flxcor_recv my_rank md") auto
    qed
  }
  {
    assume l: "length (idx_vec ?cache) < length (visited flxcor_recv my_rank md)"
      and w: "(\<forall>i \<in> set (idx_vec ?cache). i < length (buf_vec ?cache)) \<and> set (buf_vec ?cache) \<subseteq> dom cm"
    from recv_fold_oob [of ?cache cm 0 "visited flxcor_recv my_rank md" False] l w
    show "CheckReceiveBufferCacheForRebuild BOUND_TYPE SENDER my_rank md caches cm = Inl OutOfBounds"
      by (simp add: CheckReceive_fold)
  }
qed

lemma visited_ex_md_flxcor_recv:
  "length (visited flxcor_recv 0 ex_md) = 1"
  by (simp add: visited_eq triples_def ex_md_def ex_nbs_def ex_block_def ex_var_def ex_nb_def
      ex_ni_def skip_neighbor_def)

theorem validation_reads_idx_vec_unchecked_witness:
  "CheckSendBufferCacheForRebuild ex_ops any True 0 ex_md ex_empty_caches Map.empty = Inl OutOfBounds \<and>
   CheckReceiveBufferCacheForRebuild flxcor_recv False 0 ex_md ex_empty_caches Map.empty = Inl OutOfBounds"
  using validation_reads_idx_vec_unchecked [of ex_empty_caches any True 0 ex_md ex_ops Map.empty]
    validation_reads_idx_vec_unchecked [of ex_empty_caches flxcor_recv False 0 ex_md ex_ops Map.empty]
  by (simp add: visited_ex_md_any visited_ex_md_flxcor_recv ex_empty_caches_def GetSubCache_def)

lemma send_fold_unfinished:
  assumes a: "\<forall>b. state (Allocate ops b) = state b"
    and f: "\<forall>b. state (Free ops b) = state b"
  shows "fold (send_step ops cache) xs (Inr (rb, n, u, cm)) = Inr (rb', n', u', cm') \<Longrightarrow>
     (\<forall>k. map_option state (cm' k) = map_option state (cm k)) \<and>
     (u' \<longleftrightarrow> u \<or> (\<exists>i < length xs. \<exists>s. map_option state (cm (chan_key cache (n + i))) = Some s \<and>
                                    s \<noteq> available))"
proof (induction xs arbitrary: rb n u cm)
  case Nil
  then show ?case by simp
next
  case (Cons x xs)
  from Cons.prems obtain b where b: "cm (chan_key cache n) = Some b"
    by (auto simp: send_step_Inr split: if_splits option.splits)
  let ?cm1 = "cm(chan_key cache n \<mapsto> chan_op ops x b)"
  from Cons.prems b obtain rb1 where
    step: "fold (send_step ops cache) xs (Inr (rb1, Suc n, u \<or> state b \<noteq> available, ?cm1)) =
             Inr (rb', n', u', cm')"
    by (auto simp: send_step_Inr split: if_splits)
  have same: "state (chan_op ops x b) = state b"
    using a f by (simp add: chan_op_def)
  have eq1: "\<forall>k. map_option state (?cm1 k) = map_option state (cm k)"
    using b same by simp
  from Cons.IH [OF step] have
    k: "\<forall>k. map_option state (cm' k) = map_option state (?cm1 k)"
    and u: "u' \<longleftrightarrow> (u \<or> state b \<noteq> available) \<or>
         (\<exists>i < length xs. \<exists>s. map_option state (?cm1 (chan_key cache (Suc n + i))) = Some s \<and>
            s \<noteq> available)"
    by simp_all
  have p0: "(\<exists>s. map_option state (cm (chan_key cache (n + 0))) = Some s \<and> s \<noteq> available) \<longleftrightarrow>
            state b \<noteq> available"
    using b by simp
  have shift: "(\<exists>i < length xs. \<exists>s. map_option state (?cm1 (chan_key cache (Suc n + i))) = Some s \<and>
            s \<noteq> available) \<longleftrightarrow>
          (\<exists>i < length xs. \<exists>s. map_option state (cm (chan_key cache (n + Suc i))) = Some s \<and>
            s \<noteq> available)"
    by (simp only: eq1 add_Suc add_Suc_right)
  have keep: "\<forall>k. map_option state (cm' k) = map_option state (cm k)"
  proof
    fix k'
    show "map_option state (cm' k') = map_option state (cm k')"
      using k [rule_format, of k'] eq1 [rule_format, of k'] by (rule trans)
  qed
  have "u' \<longleftrightarrow> u \<or> (\<exists>i < Suc (length xs). \<exists>s.
            map_option state (cm (chan_key cache (n + i))) = Some s \<and> s \<noteq> available)"
    unfolding Ex_less_Suc2 p0 using u unfolding shift by (simp only: disj_assoc)
  then show ?case
    using keep by (simp only: list.size) simp
qed

text \<open>
  Claim C5. Let \<^verbatim>\<open>Allocate\<close> and \<^verbatim>\<open>Free\<close> leave the state of a channel as it is.
  A send-side validation that returns reports an unfinished transfer exactly when the
  channel of at least one enumerated boundary is not available for writing.
\<close>

theorem send_validation_backpressure:
  assumes "\<forall>b. state (Allocate ops b) = state b"
    and "\<forall>b. state (Free ops b) = state b"
    and "CheckSendBufferCacheForRebuild ops BOUND_TYPE SENDER my_rank md caches cm =
           Inr ((rebuild, nbound, unfinished), cm')"
  shows "unfinished \<longleftrightarrow>
           (\<exists>n < length (visited BOUND_TYPE my_rank md). \<exists>b.
              cm (buf_vec (GetSubCache caches BOUND_TYPE SENDER) !
                   (idx_vec (GetSubCache caches BOUND_TYPE SENDER) ! n)) = Some b \<and>
              \<not> IsAvailableForWrite b)"
proof -
  let ?cache = "GetSubCache caches BOUND_TYPE SENDER"
  from assms(3) have
    "fold (send_step ops ?cache) (visited BOUND_TYPE my_rank md) (Inr (False, 0, False, cm)) =
       Inr (rebuild, nbound, unfinished, cm')"
    by (auto simp: CheckSend_fold split: sum.splits)
  from send_fold_unfinished [OF assms(1,2) this] have
    "unfinished \<longleftrightarrow>
       (\<exists>i < length (visited BOUND_TYPE my_rank md). \<exists>s.
          map_option state (cm (chan_key ?cache (0 + i))) = Some s \<and> s \<noteq> available)"
    by simp
  moreover have "\<And>c. (\<exists>s. map_option state c = Some s \<and> s \<noteq> available) \<longleftrightarrow>
                    (\<exists>b. c = Some b \<and> \<not> IsAvailableForWrite b)"
    by (auto simp: IsAvailableForWrite_def)
  ultimately show ?thesis
    by (simp only: chan_key_def add_0)
qed

lemma visited_ex_md_any_list:
  "visited any 0 ex_md = map (\<lambda>nb. (ex_block 0 1 4 4 4 ex_nbs, nb, ex_var ''rho'' True True)) ex_nbs"
  by (simp add: visited_eq triples_def ex_md_def ex_var_def skip_neighbor_def ex_block_def)

lemma CheckSend_ex:
  "\<exists>cm'. CheckSendBufferCacheForRebuild ex_ops any True 0 ex_md ex_caches (ex_cm s) =
            Inr ((False, 4, s \<noteq> available), cm')"
  by (simp add: CheckSend_fold visited_ex_md_any_list ex_nbs_def send_step_Inr GetSubCache_def
      ex_caches_def ex_keys_def ex_cm_def chan_key_def chan_op_def ex_var_def ex_ops_def)

theorem send_validation_backpressure_witness:
  "(\<exists>cm'. CheckSendBufferCacheForRebuild ex_ops any True 0 ex_md ex_caches (ex_cm sending) =
             Inr ((False, 4, True), cm')) \<and>
   (\<exists>n < length (visited any 0 ex_md). \<exists>b.
       ex_cm sending (buf_vec (GetSubCache ex_caches any True) !
                       (idx_vec (GetSubCache ex_caches any True) ! n)) = Some b \<and>
       \<not> IsAvailableForWrite b) \<and>
   (\<exists>cm'. CheckSendBufferCacheForRebuild ex_ops any True 0 ex_md ex_caches (ex_cm available) =
             Inr ((False, 4, False), cm')) \<and>
   \<not> (\<exists>n < length (visited any 0 ex_md). \<exists>b.
       ex_cm available (buf_vec (GetSubCache ex_caches any True) !
                       (idx_vec (GetSubCache ex_caches any True) ! n)) = Some b \<and>
       \<not> IsAvailableForWrite b)"
proof -
  have a: "\<forall>b. state (Allocate ex_ops b) = state b" by (simp add: ex_ops_def)
  have f: "\<forall>b. state (Free ex_ops b) = state b" by (simp add: ex_ops_def)
  from CheckSend_ex [of sending] obtain cm1 where
    c1: "CheckSendBufferCacheForRebuild ex_ops any True 0 ex_md ex_caches (ex_cm sending) =
           Inr ((False, 4, True), cm1)"
    by auto
  from CheckSend_ex [of available] obtain cm2 where
    c2: "CheckSendBufferCacheForRebuild ex_ops any True 0 ex_md ex_caches (ex_cm available) =
           Inr ((False, 4, False), cm2)"
    by auto
  from send_validation_backpressure [OF a f c1] send_validation_backpressure [OF a f c2] c1 c2
  show ?thesis by (intro conjI) (simp_all only: simp_thms, blast+)
qed

lemma recv_fold_rebuild:
  "fold (recv_step cache cm) xs (Inr (rb, n)) = Inr (rb', n') \<Longrightarrow>
     (rb' \<longleftrightarrow> rb \<or> (\<exists>i < length xs. stale_slot cache cm (n + i)))"
proof (induction xs arbitrary: rb n)
  case Nil
  then show ?case by simp
next
  case (Cons x xs)
  from Cons.prems obtain b where b: "cm (chan_key cache n) = Some b"
    by (auto simp: recv_step_Inr split: if_splits option.splits)
  from Cons.prems b have
    step: "fold (recv_step cache cm) xs (Inr (rb \<or> stale_slot cache cm n, Suc n)) = Inr (rb', n')"
    by (auto simp: recv_step_Inr stale_slot_def chan_key_def split: if_splits)
  from Cons.IH [OF step] have
    "rb' \<longleftrightarrow> (rb \<or> stale_slot cache cm (n + 0)) \<or> (\<exists>i < length xs. stale_slot cache cm (n + Suc i))"
    by (simp only: add_Suc add_Suc_right add_0_right)
  then have "rb' \<longleftrightarrow> rb \<or> (\<exists>i < Suc (length xs). stale_slot cache cm (n + i))"
    unfolding Ex_less_Suc2 by (simp only: disj_assoc)
  then show ?case by (simp only: list.size) simp
qed

text \<open>
  The receive-side validation, whatever \<open>BOUND_TYPE\<close> it is instantiated with, counts
  the boundaries of \<open>flxcor_recv\<close> and asks for a rebuild exactly when one of their
  positions is stale in the cache of \<open>(BOUND_TYPE, SENDER)\<close>.
\<close>

lemma CheckReceive_over_flxcor_recv:
  assumes "CheckReceiveBufferCacheForRebuild BOUND_TYPE SENDER my_rank md caches cm = Inr (rebuild, nbound)"
  shows "nbound = length (visited flxcor_recv my_rank md) \<and>
         (rebuild \<longleftrightarrow>
            (\<exists>i < length (visited flxcor_recv my_rank md).
               stale_slot (GetSubCache caches BOUND_TYPE SENDER) cm i))"
  using recv_fold_count [of "GetSubCache caches BOUND_TYPE SENDER" cm "visited flxcor_recv my_rank md"
      False 0 rebuild nbound]
    recv_fold_rebuild [of "GetSubCache caches BOUND_TYPE SENDER" cm "visited flxcor_recv my_rank md"
      False 0 rebuild nbound] assms
  by (simp add: CheckReceive_fold)

text \<open>
  Claim C4 at a failing input. A block with one neighbour, on the same level and on
  another rank, and one variable: the subset \<open>nonlocal\<close> enumerates one boundary. Its
  receive-side cache holds the one channel, recorded allocated with resource 1; the
  channel has since received the null marker and holds resource 2, so its slot is stale
  on two counts. The validation for \<open>nonlocal\<close> walks the boundaries of
  \<open>flxcor_recv\<close>, of which there are none, and returns no rebuild and a count of 0.
\<close>

theorem CheckReceive_skips_nonlocal_boundary:
  "map (\<lambda>(pmb, nb, v). ReceiveKey pmb nb v) (visited nonlocal 0 ex_uniform_md) = [(1, 0, ''rho'', 12)] \<and>
   buf_vec (GetSubCache ex_recv_caches nonlocal False) ! (idx_vec (GetSubCache ex_recv_caches nonlocal False) ! 0) =
     (1, 0, ''rho'', 12) \<and>
   bnd_info_h (GetSubCache ex_recv_caches nonlocal False) ! (idx_vec (GetSubCache ex_recv_caches nonlocal False) ! 0) =
     \<lparr>buf = 1, allocated = True\<rparr> \<and>
   ex_recv_cm (1, 0, ''rho'', 12) = Some \<lparr>state = received_null, buffer = 2\<rparr> \<and>
   visited flxcor_recv 0 ex_uniform_md = [] \<and>
   CheckReceiveBufferCacheForRebuild nonlocal False 0 ex_uniform_md ex_recv_caches ex_recv_cm =
     Inr (False, 0)"
  by (simp add: visited_eq triples_def ex_uniform_md_def ex_block_def ex_nb_def ex_ni_def ex_var_def
      skip_neighbor_def ReceiveKey_def stale_slot_def GetSubCache_def ex_recv_caches_def
      ex_recv_cm_def CheckReceive_fold)

section \<open>Stability of the cache\<close>

lemma all_shiftD:
  "\<forall>i < length (x # xs). Q i \<Longrightarrow> Q 0 \<and> (\<forall>i < length xs. Q (Suc i))"
  by (simp add: All_less_Suc2)

lemma keys_shift:
  "map (\<lambda>i. f (n + i)) [0..<length (x # xs)] = f n # map (\<lambda>i. f (Suc n + i)) [0..<length xs]"
  by (simp add: map_upt_Suc del: upt_Suc)

lemma send_fold_settles:
  assumes idem: "\<forall>b. Allocate ops (Allocate ops b) = Allocate ops b"
      "\<forall>b. Free ops (Free ops b) = Free ops b"
  shows "n + length xs \<le> length (idx_vec cache) \<Longrightarrow>
     \<forall>i < length xs. idx_vec cache ! (n + i) < length (buf_vec cache) \<Longrightarrow>
     \<forall>i < length xs. chan_key cache (n + i) \<in> dom cm \<Longrightarrow>
     distinct (map (\<lambda>i. chan_key cache (n + i)) [0..<length xs]) \<Longrightarrow>
     \<exists>rb' u' cm'. fold (send_step ops cache) xs (Inr (rb, n, u, cm)) =
                    Inr (rb', n + length xs, u', cm') \<and>
       dom cm' = dom cm \<and>
       (\<forall>k. k \<notin> set (map (\<lambda>i. chan_key cache (n + i)) [0..<length xs]) \<longrightarrow> cm' k = cm k) \<and>
       (\<forall>i < length xs. \<exists>c. cm' (chan_key cache (n + i)) = Some c \<and> chan_op ops (xs ! i) c = c)"
proof (induction xs arbitrary: rb n u cm)
  case Nil
  then show ?case by simp
next
  case (Cons x xs)
  let ?key = "chan_key cache n"
  let ?keys = "map (\<lambda>i. chan_key cache (Suc n + i)) [0..<length xs]"
  from Cons.prems(1) have n: "n < length (idx_vec cache)" and n': "Suc n + length xs \<le> length (idx_vec cache)"
    by simp_all
  from all_shiftD [OF Cons.prems(2)] have s0: "idx_vec cache ! n < length (buf_vec cache)"
    and s': "\<forall>i < length xs. idx_vec cache ! (Suc n + i) < length (buf_vec cache)"
    by simp_all
  from all_shiftD [OF Cons.prems(3)] have d0: "?key \<in> dom cm"
    and d': "\<forall>i < length xs. chan_key cache (Suc n + i) \<in> dom cm"
    by simp_all
  from Cons.prems(4) have k0: "?key \<notin> set ?keys" and k': "distinct ?keys"
    unfolding keys_shift by simp_all
  from d0 obtain b where b: "cm ?key = Some b" by auto
  let ?b' = "chan_op ops x b"
  let ?cm1 = "cm(?key \<mapsto> ?b')"
  let ?rb1 = "if idx_vec cache ! n < length (bnd_info_h cache)
              then rb \<or> buf (bnd_info_h cache ! (idx_vec cache ! n)) \<noteq> buffer ?b' else True"
  have st: "send_step ops cache x (Inr (rb, n, u, cm)) = Inr (?rb1, Suc n, u \<or> state b \<noteq> available, ?cm1)"
    using n s0 b by (simp add: send_step_Inr)
  have d1: "\<forall>i < length xs. chan_key cache (Suc n + i) \<in> dom ?cm1"
    using d' by simp
  from Cons.IH [OF n' s' d1 k', of ?rb1 "u \<or> state b \<noteq> available"]
  obtain rb' u' cm' where
    f: "fold (send_step ops cache) xs (Inr (?rb1, Suc n, u \<or> state b \<noteq> available, ?cm1)) =
          Inr (rb', Suc n + length xs, u', cm')"
    and dm: "dom cm' = dom ?cm1"
    and fr: "\<forall>k. k \<notin> set ?keys \<longrightarrow> cm' k = ?cm1 k"
    and se: "\<forall>i < length xs. \<exists>c. cm' (chan_key cache (Suc n + i)) = Some c \<and> chan_op ops (xs ! i) c = c"
    by (elim exE conjE)
  have f': "fold (send_step ops cache) (x # xs) (Inr (rb, n, u, cm)) =
          Inr (rb', n + length (x # xs), u', cm')"
    using f by (simp only: fold_simps st comp_apply) simp
  have dm': "dom cm' = dom cm" using dm d0 by auto
  have fr': "\<forall>k. k \<notin> set (map (\<lambda>i. chan_key cache (n + i)) [0..<length (x # xs)]) \<longrightarrow> cm' k = cm k"
    unfolding keys_shift using fr by simp
  have idem': "chan_op ops x ?b' = ?b'"
    using idem by (simp add: chan_op_def)
  have "cm' ?key = ?cm1 ?key"
    using fr [rule_format, OF k0] .
  then have h0: "\<exists>c. cm' ?key = Some c \<and> chan_op ops x c = c"
    using idem' by simp
  have se': "\<forall>i < length (x # xs). \<exists>c. cm' (chan_key cache (n + i)) = Some c \<and>
                chan_op ops ((x # xs) ! i) c = c"
  proof (intro allI impI)
    fix i assume "i < length (x # xs)"
    then show "\<exists>c. cm' (chan_key cache (n + i)) = Some c \<and> chan_op ops ((x # xs) ! i) c = c"
      using h0 se by (cases i) simp_all
  qed
  show ?case
    by (intro exI [of _ rb'] exI [of _ u'] exI [of _ cm'] conjI) (rule f' dm' fr' se')+
qed

lemma rebuild_body_eq:
  "rebuild_body cache cm BndInfoCreator = (\<lambda>pmb rc nb v. rebuild_step cache cm BndInfoCreator (pmb, nb, v))"
  by (intro ext)
    (auto simp: rebuild_body_def rebuild_step_def creator_of_def chan_key_def Let_def
      split: sum.splits option.splits)

lemma Rebuild_fold:
  "RebuildBufferCache BOUND_TYPE SENDER my_rank bnd0 md nbound BndInfoCreator caches cm =
     (case fold (rebuild_step (GetSubCache caches BOUND_TYPE SENDER) cm BndInfoCreator)
             (visited BOUND_TYPE my_rank md) (Inr (replicate nbound bnd0, 0)) of
        Inl e \<Rightarrow> Inl e
      | Inr (info_h, ibound) \<Rightarrow>
          Inr (\<lambda>b s. if b = BOUND_TYPE \<and> s = SENDER
                      then (GetSubCache caches BOUND_TYPE SENDER)\<lparr>bnd_info := info_h, bnd_info_h := info_h\<rparr>
                      else caches b s))"
  unfolding RebuildBufferCache_def rebuild_body_eq ForEachBoundary_void Let_def
  by (rule refl)

lemma rebuild_step_Inr:
  "rebuild_step cache cm BndInfoCreator t (Inr (info_h, n)) =
     (if n < length (idx_vec cache) then
        if idx_vec cache ! n < length (buf_vec cache) \<and> idx_vec cache ! n < length info_h then
          (case cm (chan_key cache n) of
             None \<Rightarrow> Inl DanglingPointer
           | Some b \<Rightarrow> Inr (info_h[idx_vec cache ! n := creator_of BndInfoCreator t b], Suc n))
        else Inl OutOfBounds
      else Inl OutOfBounds)"
  by (simp add: rebuild_step_def)

lemma rebuild_fold:
  "n + length xs \<le> length (idx_vec cache) \<Longrightarrow>
   \<forall>i < length xs. idx_vec cache ! (n + i) < length (buf_vec cache) \<Longrightarrow>
   \<forall>i < length xs. idx_vec cache ! (n + i) < length info \<Longrightarrow>
   \<forall>i < length xs. chan_key cache (n + i) \<in> dom cm \<Longrightarrow>
   distinct (map (\<lambda>i. idx_vec cache ! (n + i)) [0..<length xs]) \<Longrightarrow>
   \<exists>info'. fold (rebuild_step cache cm BndInfoCreator) xs (Inr (info, n)) = Inr (info', n + length xs) \<and>
     length info' = length info \<and>
     (\<forall>m. m \<notin> set (map (\<lambda>i. idx_vec cache ! (n + i)) [0..<length xs]) \<longrightarrow> info' ! m = info ! m) \<and>
     (\<forall>i < length xs. \<exists>c. cm (chan_key cache (n + i)) = Some c \<and>
        info' ! (idx_vec cache ! (n + i)) = creator_of BndInfoCreator (xs ! i) c)"
proof (induction xs arbitrary: info n)
  case Nil
  then show ?case by simp
next
  case (Cons x xs)
  let ?slot = "idx_vec cache ! n"
  let ?slots = "map (\<lambda>i. idx_vec cache ! (Suc n + i)) [0..<length xs]"
  from Cons.prems(1) have n: "n < length (idx_vec cache)" and n': "Suc n + length xs \<le> length (idx_vec cache)"
    by simp_all
  from all_shiftD [OF Cons.prems(2)] have s0: "?slot < length (buf_vec cache)"
    and s': "\<forall>i < length xs. idx_vec cache ! (Suc n + i) < length (buf_vec cache)"
    by simp_all
  from all_shiftD [OF Cons.prems(3)] have i0: "?slot < length info"
    and i': "\<forall>i < length xs. idx_vec cache ! (Suc n + i) < length info"
    by simp_all
  from all_shiftD [OF Cons.prems(4)] have d0: "chan_key cache n \<in> dom cm"
    and d': "\<forall>i < length xs. chan_key cache (Suc n + i) \<in> dom cm"
    by simp_all
  from Cons.prems(5) have k0: "?slot \<notin> set ?slots" and k': "distinct ?slots"
    unfolding keys_shift by simp_all
  from d0 obtain b where b: "cm (chan_key cache n) = Some b" by auto
  let ?info1 = "info[?slot := creator_of BndInfoCreator x b]"
  have st: "rebuild_step cache cm BndInfoCreator x (Inr (info, n)) = Inr (?info1, Suc n)"
    using n s0 i0 b by (simp add: rebuild_step_Inr)
  have i1: "\<forall>i < length xs. idx_vec cache ! (Suc n + i) < length ?info1"
    using i' by simp
  from Cons.IH [OF n' s' i1 d' k']
  obtain info' where
    f: "fold (rebuild_step cache cm BndInfoCreator) xs (Inr (?info1, Suc n)) =
          Inr (info', Suc n + length xs)"
    and l: "length info' = length ?info1"
    and fr: "\<forall>m. m \<notin> set ?slots \<longrightarrow> info' ! m = ?info1 ! m"
    and se: "\<forall>i < length xs. \<exists>c. cm (chan_key cache (Suc n + i)) = Some c \<and>
        info' ! (idx_vec cache ! (Suc n + i)) = creator_of BndInfoCreator (xs ! i) c"
    by (elim exE conjE)
  have f': "fold (rebuild_step cache cm BndInfoCreator) (x # xs) (Inr (info, n)) =
          Inr (info', n + length (x # xs))"
    using f by (simp only: fold_simps st comp_apply) simp
  have l': "length info' = length info" using l by simp
  have fr': "\<forall>m. m \<notin> set (map (\<lambda>i. idx_vec cache ! (n + i)) [0..<length (x # xs)]) \<longrightarrow>
               info' ! m = info ! m"
    unfolding keys_shift using fr by simp
  have "info' ! ?slot = ?info1 ! ?slot"
    using fr [rule_format, OF k0] .
  then have h0: "\<exists>c. cm (chan_key cache n) = Some c \<and> info' ! ?slot = creator_of BndInfoCreator x c"
    using b i0 by simp
  have se': "\<forall>i < length (x # xs). \<exists>c. cm (chan_key cache (n + i)) = Some c \<and>
        info' ! (idx_vec cache ! (n + i)) = creator_of BndInfoCreator ((x # xs) ! i) c"
  proof (intro allI impI)
    fix i assume "i < length (x # xs)"
    then show "\<exists>c. cm (chan_key cache (n + i)) = Some c \<and>
        info' ! (idx_vec cache ! (n + i)) = creator_of BndInfoCreator ((x # xs) ! i) c"
      using h0 se by (cases i) simp_all
  qed
  show ?case
    by (intro exI [of _ info'] conjI) (rule f' l' fr' se')+
qed

lemma send_fold_stable:
  "n + length xs \<le> length (idx_vec cache) \<Longrightarrow>
   \<forall>i < length xs. idx_vec cache ! (n + i) < length (buf_vec cache) \<and>
      idx_vec cache ! (n + i) < length (bnd_info_h cache) \<and>
      (\<exists>c. cm (chan_key cache (n + i)) = Some c \<and> chan_op ops (xs ! i) c = c \<and>
           buf (bnd_info_h cache ! (idx_vec cache ! (n + i))) = buffer c) \<Longrightarrow>
   \<exists>u'. fold (send_step ops cache) xs (Inr (rb, n, u, cm)) = Inr (rb, n + length xs, u', cm)"
proof (induction xs arbitrary: n u)
  case Nil
  then show ?case by simp
next
  case (Cons x xs)
  from Cons.prems(1) have n: "n < length (idx_vec cache)" and n': "Suc n + length xs \<le> length (idx_vec cache)"
    by simp_all
  from all_shiftD [OF Cons.prems(2)] have
    h0: "idx_vec cache ! n < length (buf_vec cache) \<and>
      idx_vec cache ! n < length (bnd_info_h cache) \<and>
      (\<exists>c. cm (chan_key cache n) = Some c \<and> chan_op ops x c = c \<and>
           buf (bnd_info_h cache ! (idx_vec cache ! n)) = buffer c)"
    and h': "\<forall>i < length xs. idx_vec cache ! (Suc n + i) < length (buf_vec cache) \<and>
      idx_vec cache ! (Suc n + i) < length (bnd_info_h cache) \<and>
      (\<exists>c. cm (chan_key cache (Suc n + i)) = Some c \<and> chan_op ops (xs ! i) c = c \<and>
           buf (bnd_info_h cache ! (idx_vec cache ! (Suc n + i))) = buffer c)"
    by simp_all
  from h0 obtain c where c: "cm (chan_key cache n) = Some c" "chan_op ops x c = c"
    "buf (bnd_info_h cache ! (idx_vec cache ! n)) = buffer c"
    by (elim conjE exE)
  have same: "cm(chan_key cache n \<mapsto> c) = cm"
    using c(1) by (rule map_upd_triv)
  have st: "send_step ops cache x (Inr (rb, n, u, cm)) = Inr (rb, Suc n, u \<or> state c \<noteq> available, cm)"
    using n h0 c same by (simp add: send_step_Inr)
  from Cons.IH [OF n' h', of "u \<or> state c \<noteq> available"] obtain u' where
    "fold (send_step ops cache) xs (Inr (rb, Suc n, u \<or> state c \<noteq> available, cm)) =
       Inr (rb, Suc n + length xs, u', cm)"
    by (elim exE)
  then have "fold (send_step ops cache) (x # xs) (Inr (rb, n, u, cm)) =
       Inr (rb, n + length (x # xs), u', cm)"
    by (simp only: fold_simps st comp_apply) simp
  then show ?case by (rule exI)
qed

text \<open>
  Claim C3. Let the cache of a subset be built by \<^verbatim>\<open>BuildBufferCache\<close>, under any
  shuffle, over boundaries whose keys are pairwise distinct; let \<^verbatim>\<open>Allocate\<close> and
  \<^verbatim>\<open>Free\<close> change nothing when repeated, and let the descriptor factory record the
  buffer of the channel it is given. Then, with the mesh, the allocation states and the
  channels left as they are, a send-side validation, the rebuild with the count it
  returned, and a second validation all return, and the second validation reports that
  no rebuild is needed, with the same count and the channels unchanged.
\<close>

theorem cache_stable_after_rebuild:
  assumes sh: "\<forall>ks. mset (shuffle ks) = mset ks"
    and build: "BuildBufferCache BOUND_TYPE my_rank debug c0 shuffle md cm0 KeyFunc = Inr (bv, iv, cm1)"
    and cache: "buf_vec (GetSubCache caches BOUND_TYPE SENDER) = bv"
      "idx_vec (GetSubCache caches BOUND_TYPE SENDER) = iv"
    and dist: "distinct (map (key_of KeyFunc) (visited BOUND_TYPE my_rank md))"
    and idem: "\<forall>b. Allocate ops (Allocate ops b) = Allocate ops b"
      "\<forall>b. Free ops (Free ops b) = Free ops b"
    and creator: "\<forall>pmb nb v b. buf (BndInfoCreator pmb nb v b) = buffer b"
  shows "\<exists>rb1 u1 cm2 caches' u2.
           CheckSendBufferCacheForRebuild ops BOUND_TYPE SENDER my_rank md caches cm1 =
             Inr ((rb1, length (visited BOUND_TYPE my_rank md), u1), cm2) \<and>
           RebuildBufferCache BOUND_TYPE SENDER my_rank bnd0 md (length (visited BOUND_TYPE my_rank md))
             BndInfoCreator caches cm2 = Inr caches' \<and>
           CheckSendBufferCacheForRebuild ops BOUND_TYPE SENDER my_rank md caches' cm2 =
             Inr ((False, length (visited BOUND_TYPE my_rank md), u2), cm2)"
proof -
  let ?xs = "visited BOUND_TYPE my_rank md"
  let ?N = "length ?xs"
  let ?cache = "GetSubCache caches BOUND_TYPE SENDER"
  from BuildBufferCache_props [OF sh build] have
    lbv: "length bv = ?N" and liv: "length iv = ?N" and div: "distinct iv"
    and siv: "set iv = {..<?N}"
    and at: "\<forall>n < ?N. bv ! (iv ! n) = key_of KeyFunc (?xs ! n)"
    and dm: "set bv \<subseteq> dom cm1"
    by simp_all
  have slot: "\<forall>i < ?N. iv ! i < ?N"
    using siv liv by (metis lessThan_iff nth_mem)
  have key: "\<forall>i < ?N. chan_key ?cache i = key_of KeyFunc (?xs ! i)"
    using at cache by (simp add: chan_key_def)
  have keys: "map (\<lambda>i. chan_key ?cache (0 + i)) [0..<?N] = map (key_of KeyFunc) ?xs"
    using key by (intro nth_equalityI) simp_all
  have slots: "map (\<lambda>i. idx_vec ?cache ! (0 + i)) [0..<?N] = iv"
    using cache liv by (intro nth_equalityI) simp_all
  have b1: "0 + ?N \<le> length (idx_vec ?cache)" using cache liv by simp
  have s1: "\<forall>i < ?N. idx_vec ?cache ! (0 + i) < length (buf_vec ?cache)"
    using slot cache lbv by simp
  have d1: "\<forall>i < ?N. chan_key ?cache (0 + i) \<in> dom cm1"
  proof (intro allI impI)
    fix i assume "i < ?N"
    then have "bv ! (iv ! i) \<in> set bv" using slot lbv by simp
    then show "chan_key ?cache (0 + i) \<in> dom cm1"
      using dm cache by (auto simp: chan_key_def)
  qed
  have k1: "distinct (map (\<lambda>i. chan_key ?cache (0 + i)) [0..<?N])"
    unfolding keys by (rule dist)
  from send_fold_settles [OF idem b1 s1 d1 k1, of False False]
  obtain rb1 u1 cm2 where
    f1: "fold (send_step ops ?cache) ?xs (Inr (False, 0, False, cm1)) = Inr (rb1, 0 + ?N, u1, cm2)"
    and dm2: "dom cm2 = dom cm1"
    and settled: "\<forall>i < ?N. \<exists>c. cm2 (chan_key ?cache (0 + i)) = Some c \<and> chan_op ops (?xs ! i) c = c"
    by (elim exE conjE)
  have c1: "CheckSendBufferCacheForRebuild ops BOUND_TYPE SENDER my_rank md caches cm1 =
             Inr ((rb1, ?N, u1), cm2)"
    using f1 by (simp add: CheckSend_fold)
  have i2: "\<forall>i < ?N. idx_vec ?cache ! (0 + i) < length (replicate ?N bnd0)"
    using slot cache by simp
  have d2: "\<forall>i < ?N. chan_key ?cache (0 + i) \<in> dom cm2"
    using d1 dm2 by simp
  have k2: "distinct (map (\<lambda>i. idx_vec ?cache ! (0 + i)) [0..<?N])"
    unfolding slots by (rule div)
  from rebuild_fold [OF b1 s1 i2 d2 k2, of BndInfoCreator]
  obtain info' where
    f2: "fold (rebuild_step ?cache cm2 BndInfoCreator) ?xs (Inr (replicate ?N bnd0, 0)) =
           Inr (info', 0 + ?N)"
    and l2: "length info' = length (replicate ?N bnd0)"
    and rec: "\<forall>i < ?N. \<exists>c. cm2 (chan_key ?cache (0 + i)) = Some c \<and>
        info' ! (idx_vec ?cache ! (0 + i)) = creator_of BndInfoCreator (?xs ! i) c"
    by (elim exE conjE)
  let ?caches' = "\<lambda>b s. if b = BOUND_TYPE \<and> s = SENDER
                      then ?cache\<lparr>bnd_info := info', bnd_info_h := info'\<rparr> else caches b s"
  let ?cache' = "GetSubCache ?caches' BOUND_TYPE SENDER"
  have r: "RebuildBufferCache BOUND_TYPE SENDER my_rank bnd0 md ?N BndInfoCreator caches cm2 =
             Inr ?caches'"
    using f2 by (simp add: Rebuild_fold)
  have cache': "idx_vec ?cache' = idx_vec ?cache" "buf_vec ?cache' = buf_vec ?cache"
    "bnd_info_h ?cache' = info'"
    by (simp_all add: GetSubCache_def)
  have ck: "chan_key ?cache' = chan_key ?cache"
    by (intro ext) (simp add: chan_key_def cache')
  have b3: "0 + ?N \<le> length (idx_vec ?cache')" using b1 cache' by simp
  have h3: "\<forall>i < ?N. idx_vec ?cache' ! (0 + i) < length (buf_vec ?cache') \<and>
      idx_vec ?cache' ! (0 + i) < length (bnd_info_h ?cache') \<and>
      (\<exists>c. cm2 (chan_key ?cache' (0 + i)) = Some c \<and> chan_op ops (?xs ! i) c = c \<and>
           buf (bnd_info_h ?cache' ! (idx_vec ?cache' ! (0 + i))) = buffer c)"
  proof (intro allI impI)
    fix i assume i: "i < ?N"
    from settled i obtain c where c: "cm2 (chan_key ?cache (0 + i)) = Some c" "chan_op ops (?xs ! i) c = c"
      by blast
    from rec i c(1) have "info' ! (idx_vec ?cache ! (0 + i)) = creator_of BndInfoCreator (?xs ! i) c"
      by auto
    then have "buf (info' ! (idx_vec ?cache ! (0 + i))) = buffer c"
      using creator by (simp add: creator_of_def split: prod.splits)
    then show "idx_vec ?cache' ! (0 + i) < length (buf_vec ?cache') \<and>
      idx_vec ?cache' ! (0 + i) < length (bnd_info_h ?cache') \<and>
      (\<exists>c. cm2 (chan_key ?cache' (0 + i)) = Some c \<and> chan_op ops (?xs ! i) c = c \<and>
           buf (bnd_info_h ?cache' ! (idx_vec ?cache' ! (0 + i))) = buffer c)"
      unfolding ck cache' using s1 i2 l2 i c by simp
  qed
  from send_fold_stable [OF b3 h3, of False False] obtain u2 where
    "fold (send_step ops ?cache') ?xs (Inr (False, 0, False, cm2)) = Inr (False, 0 + ?N, u2, cm2)"
    by (elim exE)
  then have c3: "CheckSendBufferCacheForRebuild ops BOUND_TYPE SENDER my_rank md ?caches' cm2 =
             Inr ((False, ?N, u2), cm2)"
    by (simp add: CheckSend_fold)
  show ?thesis
    by (intro exI [of _ rb1] exI [of _ u1] exI [of _ cm2] exI [of _ ?caches'] exI [of _ u2] conjI)
       (rule c1 r c3)+
qed

lemma ex_keys_distinct:
  "map (key_of SendKey) (visited any 0 ex_md) = ex_keys \<and> distinct ex_keys"
  by (simp add: visited_ex_md_any_list key_of_def SendKey_def ex_nbs_def ex_nb_def ex_ni_def
      ex_block_def ex_var_def ex_keys_def)

theorem cache_stable_after_rebuild_witness:
  "\<exists>bv iv cm1 rb1 u1 cm2 caches' u2.
     BuildBufferCache any 0 True \<lparr>state = available, buffer = 0\<rparr> rev ex_md (ex_cm available) SendKey =
       Inr (bv, iv, cm1) \<and>
     CheckSendBufferCacheForRebuild ex_ops any True 0 ex_md
       (\<lambda>b s. \<lparr>buf_vec = bv, idx_vec = iv, bnd_info = [], bnd_info_h = []\<rparr>) cm1 =
       Inr ((rb1, 4, u1), cm2) \<and>
     RebuildBufferCache any True 0 \<lparr>buf = 0, allocated = False\<rparr> ex_md 4 ex_creator
       (\<lambda>b s. \<lparr>buf_vec = bv, idx_vec = iv, bnd_info = [], bnd_info_h = []\<rparr>) cm2 = Inr caches' \<and>
     CheckSendBufferCacheForRebuild ex_ops any True 0 ex_md caches' cm2 = Inr ((False, 4, u2), cm2)"
proof -
  have sh: "\<forall>ks :: key_order_t. mset (rev ks) = mset ks"
    by simp
  have pre: "True \<longrightarrow> (\<forall>x \<in> set (visited any 0 ex_md). ex_cm available (key_of SendKey x) \<noteq> None)"
    by (simp add: visited_ex_md_any_list key_of_def SendKey_def ex_nbs_def ex_nb_def ex_ni_def
      ex_block_def ex_var_def ex_cm_def)
  from BuildBufferCache_returns [OF sh pre, of "\<lparr>state = available, buffer = 0\<rparr>"]
  obtain bv iv cm1 where
    build: "BuildBufferCache any 0 True \<lparr>state = available, buffer = 0\<rparr> rev ex_md (ex_cm available)
              SendKey = Inr (bv, iv, cm1)"
    by (elim exE)
  let ?caches = "\<lambda>(b :: BoundaryType) (s :: bool). \<lparr>buf_vec = bv, idx_vec = iv, bnd_info = [], bnd_info_h = []\<rparr>"
  have c: "buf_vec (GetSubCache ?caches any True) = bv" "idx_vec (GetSubCache ?caches any True) = iv"
    by (simp_all add: GetSubCache_def)
  have d: "distinct (map (key_of SendKey) (visited any 0 ex_md))"
    using ex_keys_distinct by simp
  have i: "\<forall>b. Allocate ex_ops (Allocate ex_ops b) = Allocate ex_ops b"
    "\<forall>b. Free ex_ops (Free ex_ops b) = Free ex_ops b"
    by (simp_all add: ex_ops_def)
  have cr: "\<forall>pmb nb v b. buf (ex_creator pmb nb v b) = buffer b"
    by (simp add: ex_creator_def)
  from cache_stable_after_rebuild [OF sh build c d i cr, of "\<lparr>buf = 0, allocated = False\<rparr>"]
  obtain rb1 u1 cm2 caches' u2 where
    "CheckSendBufferCacheForRebuild ex_ops any True 0 ex_md ?caches cm1 =
       Inr ((rb1, length (visited any 0 ex_md), u1), cm2)"
    "RebuildBufferCache any True 0 \<lparr>buf = 0, allocated = False\<rparr> ex_md (length (visited any 0 ex_md))
       ex_creator ?caches cm2 = Inr caches'"
    "CheckSendBufferCacheForRebuild ex_ops any True 0 ex_md caches' cm2 =
       Inr ((False, length (visited any 0 ex_md), u2), cm2)"
    by (elim exE conjE)
  then show ?thesis
    unfolding visited_ex_md_any using build
    by (intro exI [of _ bv] exI [of _ iv] exI [of _ cm1] exI [of _ rb1] exI [of _ u1]
        exI [of _ cm2] exI [of _ caches'] exI [of _ u2] conjI)
qed

section \<open>Properties of the same-level unpacking\<close>

text \<open>
  A loop that copies \<open>a (src x)\<close> to \<open>dst x\<close> for every \<open>x\<close> of a list, and never writes
  where it reads, leaves every source in place and each destination with the value of
  its source.
\<close>

lemma copy_fold_frame:
  "p \<notin> dst ` set xs \<Longrightarrow> fold (\<lambda>x a. a(dst x := a (src x))) xs a p = a p"
  by (induction xs arbitrary: a) auto

lemma copy_fold_value:
  assumes "\<forall>x \<in> set xs. \<forall>y \<in> set xs. src x \<noteq> dst y"
    and "inj_on dst (set xs)"
    and "x \<in> set xs"
  shows "fold (\<lambda>x a. a(dst x := a (src x))) xs a (dst x) = a (src x)"
  using assms
proof (induction xs arbitrary: a)
  case Nil
  then show ?case by simp
next
  case (Cons y ys)
  let ?a1 = "a(dst y := a (src y))"
  have rd: "\<forall>x \<in> set ys. \<forall>z \<in> set ys. src x \<noteq> dst z" using Cons.prems(1) by simp
  have inj: "inj_on dst (set ys)" using Cons.prems(2) by (simp add: inj_on_def)
  show ?case
  proof (cases "x \<in> set ys")
    case True
    from Cons.IH [OF rd inj True, of ?a1]
    have "fold (\<lambda>x a. a(dst x := a (src x))) ys ?a1 (dst x) = ?a1 (src x)" .
    moreover have "src x \<noteq> dst y" using Cons.prems(1,3) by auto
    then have "?a1 (src x) = a (src x)" by simp
    ultimately have "fold (\<lambda>x a. a(dst x := a (src x))) ys ?a1 (dst x) = a (src x)"
      by (rule trans)
    then show ?thesis by (simp only: fold_simps comp_apply)
  next
    case False
    with Cons.prems(3) have xy: "x = y" by simp
    have "dst y \<notin> dst ` set ys"
    proof
      assume "dst y \<in> dst ` set ys"
      then obtain z where z: "z \<in> set ys" "dst y = dst z" by auto
      with Cons.prems(2) have "y = z" by (simp add: inj_on_def)
      with z False xy show False by simp
    qed
    then have "fold (\<lambda>x a. a(dst x := a (src x))) ys ?a1 (dst y) = ?a1 (dst y)"
      by (rule copy_fold_frame)
    moreover have "?a1 (dst y) = a (src y)" by simp
    ultimately have "fold (\<lambda>x a. a(dst x := a (src x))) ys ?a1 (dst y) = a (src y)"
      by (rule trans)
    then show ?thesis unfolding xy by (simp only: fold_simps comp_apply)
  qed
qed

lemma replicate_x2f_planes:
  assumes "i \<in> {si..ei}"
  shows "replicate_x2f (si, ei, sj, ej, sk, ek) a (sk, sj + 1, i) =
         replicate_x2f (si, ei, sj, ej, sk, ek) a (sk, sj, i)"
proof -
  let ?dst = "\<lambda>i. (sk, sj + 1, i)" and ?src = "\<lambda>i. (sk, sj, i)"
  have "fold (\<lambda>x a. a(?dst x := a (?src x))) [si..ei] a (?dst i) = a (?src i)"
    using assms by (intro copy_fold_value) (auto simp: inj_on_def)
  moreover have "fold (\<lambda>x a. a(?dst x := a (?src x))) [si..ei] a (?src i) = a (?src i)"
    by (intro copy_fold_frame) auto
  ultimately show ?thesis by simp
qed

lemma replicate_x3f_flat:
  "replicate_x3f (si, ei, sj, ej, sk, ek) a =
     fold (\<lambda>x a. a((sk + 1, fst x, snd x) := a (sk, fst x, snd x)))
       (concat (map (\<lambda>j. map (\<lambda>i. (j, i)) [si..ei]) [sj..ej])) a"
  by (simp add: fold_concat_map fold_map comp_def)

lemma replicate_x3f_planes:
  assumes "j \<in> {sj..ej}" and "i \<in> {si..ei}"
  shows "replicate_x3f (si, ei, sj, ej, sk, ek) a (sk + 1, j, i) =
         replicate_x3f (si, ei, sj, ej, sk, ek) a (sk, j, i)"
proof -
  let ?dst = "\<lambda>x :: int \<times> int. (sk + 1, fst x, snd x)" and ?src = "\<lambda>x :: int \<times> int. (sk, fst x, snd x)"
  let ?xs = "concat (map (\<lambda>j. map (\<lambda>i. (j, i)) [si..ei]) [sj..ej])"
  have m: "(j, i) \<in> set ?xs" using assms by (auto intro!: bexI [of _ j])
  have "fold (\<lambda>x a. a(?dst x := a (?src x))) ?xs a (?dst (j, i)) = a (?src (j, i))"
    using m by (intro copy_fold_value) (auto simp: inj_on_def)
  moreover have "fold (\<lambda>x a. a(?dst x := a (?src x))) ?xs a (?src (j, i)) = a (?src (j, i))"
    by (intro copy_fold_frame) auto
  ultimately show ?thesis unfolding replicate_x3f_flat by simp
qed

lemma SetBoundarySameLevel_body_x2f:
  "x2f (SetBoundarySameLevel_body NGHOST multilevel cellbounds' pmb var_fc rbuf nb) =
     (let b1 = set_bx1 NGHOST multilevel cellbounds' nb;
          b2 = set_bx2 NGHOST multilevel cellbounds' pmb nb b1;
          a2 = fst (UnpackData rbuf (x2f var_fc) b2 (snd (UnpackData rbuf (x1f var_fc) b1 0)))
      in if nx2 (block_size pmb) = 1 then replicate_x2f b2 a2 else a2)"
  by (simp add: SetBoundarySameLevel_body_def Let_def case_prod_beta)

lemma SetBoundarySameLevel_body_x3f:
  "x3f (SetBoundarySameLevel_body NGHOST multilevel cellbounds' pmb var_fc rbuf nb) =
     (let b1 = set_bx1 NGHOST multilevel cellbounds' nb;
          b2 = set_bx2 NGHOST multilevel cellbounds' pmb nb b1;
          b3 = set_bx3 NGHOST multilevel cellbounds' pmb nb b2;
          a3 = fst (UnpackData rbuf (x3f var_fc) b3
                 (snd (UnpackData rbuf (x2f var_fc) b2 (snd (UnpackData rbuf (x1f var_fc) b1 0)))))
      in if nx3 (block_size pmb) = 1 then replicate_x3f b3 a3 else a3)"
  by (simp add: SetBoundarySameLevel_body_def Let_def case_prod_beta)

lemma SetBoundarySameLevel_body_x1f:
  "x1f (SetBoundarySameLevel_body NGHOST multilevel cellbounds' pmb var_fc rbuf nb) =
     fst (UnpackData rbuf (x1f var_fc) (set_bx1 NGHOST multilevel cellbounds' nb) 0)"
  by (simp add: SetBoundarySameLevel_body_def Let_def case_prod_beta)

text \<open>
  The statements after line 437, whatever index shape the reads through the reference
  deliver: when \<open>nx2 = 1\<close>, the component \<open>x2f\<close> holds the same value at \<open>(sk, sj+1, i)\<close>
  and at \<open>(sk, sj, i)\<close> for every \<open>i\<close> of the unpacked range \<open>si..ei\<close>; when \<open>nx3 = 1\<close>,
  the component \<open>x3f\<close> holds the same value at \<open>(sk+1, j, i)\<close> and at \<open>(sk, j, i)\<close> for
  every \<open>j\<close> and \<open>i\<close> of the unpacked ranges. The indices are the ones held after
  unpacking the component; of \<open>x2f\<close> only the plane \<open>k = sk\<close> is copied.
\<close>

lemma SetBoundarySameLevel_body_replication:
  "(nx2 (block_size pmb) = 1 \<longrightarrow>
      (case set_bx2 NGHOST multilevel cellbounds' pmb nb (set_bx1 NGHOST multilevel cellbounds' nb) of
         (si, ei, sj, ej, sk, ek) \<Rightarrow>
           \<forall>i \<in> {si..ei}.
             x2f (SetBoundarySameLevel_body NGHOST multilevel cellbounds' pmb var_fc rbuf nb) (sk, sj + 1, i) =
             x2f (SetBoundarySameLevel_body NGHOST multilevel cellbounds' pmb var_fc rbuf nb) (sk, sj, i))) \<and>
   (nx3 (block_size pmb) = 1 \<longrightarrow>
      (case set_bx3 NGHOST multilevel cellbounds' pmb nb
              (set_bx2 NGHOST multilevel cellbounds' pmb nb (set_bx1 NGHOST multilevel cellbounds' nb)) of
         (si, ei, sj, ej, sk, ek) \<Rightarrow>
           \<forall>j \<in> {sj..ej}. \<forall>i \<in> {si..ei}.
             x3f (SetBoundarySameLevel_body NGHOST multilevel cellbounds' pmb var_fc rbuf nb) (sk + 1, j, i) =
             x3f (SetBoundarySameLevel_body NGHOST multilevel cellbounds' pmb var_fc rbuf nb) (sk, j, i)))"
proof (intro conjI impI)
  let ?b1 = "set_bx1 NGHOST multilevel cellbounds' nb"
  let ?b2 = "set_bx2 NGHOST multilevel cellbounds' pmb nb ?b1"
  let ?b3 = "set_bx3 NGHOST multilevel cellbounds' pmb nb ?b2"
  let ?res = "SetBoundarySameLevel_body NGHOST multilevel cellbounds' pmb var_fc rbuf nb"
  {
    assume d: "nx2 (block_size pmb) = 1"
    obtain si ei sj ej sk ek where b2: "?b2 = (si, ei, sj, ej, sk, ek)"
      by (metis prod_cases3)
    obtain a2 where x: "x2f ?res = replicate_x2f ?b2 a2"
      using d by (simp add: SetBoundarySameLevel_body_x2f Let_def)
    show "case ?b2 of (si, ei, sj, ej, sk, ek) \<Rightarrow>
           \<forall>i \<in> {si..ei}. x2f ?res (sk, sj + 1, i) = x2f ?res (sk, sj, i)"
      unfolding x unfolding b2 by (simp add: replicate_x2f_planes del: replicate_x2f.simps)
  }
  {
    assume d: "nx3 (block_size pmb) = 1"
    obtain si ei sj ej sk ek where b3: "?b3 = (si, ei, sj, ej, sk, ek)"
      by (metis prod_cases3)
    obtain a3 where x: "x3f ?res = replicate_x3f ?b3 a3"
      using d by (simp add: SetBoundarySameLevel_body_x3f Let_def)
    show "case ?b3 of (si, ei, sj, ej, sk, ek) \<Rightarrow>
           \<forall>j \<in> {sj..ej}. \<forall>i \<in> {si..ei}. x3f ?res (sk + 1, j, i) = x3f ?res (sk, j, i)"
      unfolding x unfolding b3 by (simp add: replicate_x3f_planes del: replicate_x3f.simps)
  }
qed

lemma upto_0_1: "[0..1::int] = [0, 1]" "[0..0::int] = [0]"
  by (simp_all add: upto_rec1)

lemma SetBoundarySameLevel_body_replication_example:
  "x2f (SetBoundarySameLevel_body 2 False (ex_shape 2 4 1 1) (ex_block 1 0 4 1 1 []) ex_field ex_rbuf
          (ex_nb 0 0 0 (ex_ni (-1) 0 0 face))) (0, 1, 1) =
   x2f (SetBoundarySameLevel_body 2 False (ex_shape 2 4 1 1) (ex_block 1 0 4 1 1 []) ex_field ex_rbuf
          (ex_nb 0 0 0 (ex_ni (-1) 0 0 face))) (0, 0, 1) \<and>
   x3f (SetBoundarySameLevel_body 2 False (ex_shape 2 4 1 1) (ex_block 1 0 4 1 1 []) ex_field ex_rbuf
          (ex_nb 0 0 0 (ex_ni (-1) 0 0 face))) (1, 0, 1) =
   x3f (SetBoundarySameLevel_body 2 False (ex_shape 2 4 1 1) (ex_block 1 0 4 1 1 []) ex_field ex_rbuf
          (ex_nb 0 0 0 (ex_ni (-1) 0 0 face))) (0, 0, 1) \<and>
   x2f (SetBoundarySameLevel_body 2 False (ex_shape 2 4 1 1) (ex_block 1 0 4 1 1 []) ex_field ex_rbuf
          (ex_nb 0 0 0 (ex_ni (-1) 0 0 face))) (0, 0, 1) = 103 \<and>
   x3f (SetBoundarySameLevel_body 2 False (ex_shape 2 4 1 1) (ex_block 1 0 4 1 1 []) ex_field ex_rbuf
          (ex_nb 0 0 0 (ex_ni (-1) 0 0 face))) (0, 0, 1) = 105"
proof -
  let ?cb = "ex_shape 2 4 1 1" and ?pmb = "ex_block 1 0 4 1 1 []"
    and ?nb = "ex_nb 0 0 0 (ex_ni (-1) 0 0 face)"
  let ?res = "SetBoundarySameLevel_body 2 False ?cb ?pmb ex_field ex_rbuf ?nb"
  have b1: "set_bx1 2 False ?cb ?nb = (0, 1, 0, 0, 0, 0)"
    by (simp add: set_bx1_def ex_shape_def ex_nb_def ex_ni_def)
  have b2: "set_bx2 2 False ?cb ?pmb ?nb (0, 1, 0, 0, 0, 0) = (0, 1, 0, 0, 0, 0)"
    by (simp add: ex_shape_def ex_nb_def ex_ni_def ex_block_def)
  have b3: "set_bx3 2 False ?cb ?pmb ?nb (0, 1, 0, 0, 0, 0) = (0, 1, 0, 0, 0, 0)"
    by (simp add: ex_shape_def ex_nb_def ex_ni_def ex_block_def)
  have n: "nx2 (block_size ?pmb) = 1" "nx3 (block_size ?pmb) = 1"
    by (simp_all add: ex_block_def)
  from SetBoundarySameLevel_body_replication
    [where pmb = ?pmb and NGHOST = 2 and multilevel = False and cellbounds' = ?cb and nb = ?nb
       and var_fc = ex_field and rbuf = ex_rbuf]
  have "\<forall>i \<in> {0..1}. x2f ?res (0, 0 + 1, i) = x2f ?res (0, 0, i)"
    and "\<forall>j \<in> {0..0}. \<forall>i \<in> {0..1}. x3f ?res (0 + 1, j, i) = x3f ?res (0, j, i)"
    unfolding b1 b2 b3 using n by simp_all
  then have e: "x2f ?res (0, 1, 1) = x2f ?res (0, 0, 1)" "x3f ?res (1, 0, 1) = x3f ?res (0, 0, 1)"
    by simp_all
  have v2: "x2f ?res (0, 0, 1) = 103"
    unfolding SetBoundarySameLevel_body_x2f b1 b2 Let_def
    by (simp add: n UnpackData_def upto_0_1 ex_rbuf_def)
  have v3: "x3f ?res (0, 0, 1) = 105"
    unfolding SetBoundarySameLevel_body_x3f b1 b2 b3 Let_def
    by (simp add: n UnpackData_def upto_0_1 ex_rbuf_def)
  show ?thesis using e v2 v3 by simp
qed

text \<open>
  Claim C9 at a failing input. A block of extents 4, 1 and 1 with 2 ghost cells, its
  relation with offset \<open>(-1, 0, 0)\<close>, and a face field that holds different values in
  the two planes along the second axis and in the two planes along the third. Both
  replication loops are due, since \<open>nx2 = 1\<close> and \<open>nx3 = 1\<close>. The call reads its first
  index bound through the reference that line 437 leaves without an object: it ends in
  the fault and returns no field, so that nothing is unpacked and no plane is copied.
\<close>

theorem SetBoundarySameLevel_replicates_nothing:
  "nx2 (block_size (ex_block 1 0 4 1 1 [])) = 1 \<and>
   nx3 (block_size (ex_block 1 0 4 1 1 [])) = 1 \<and>
   SetBoundarySameLevel 2 False (ex_block 1 0 4 1 1 []) ex_field ex_rbuf
     (ex_nb 0 0 0 (ex_ni (-1) 0 0 face)) = Inl UnboundReference \<and>
   x2f ex_field (0, 1, 1) = 2011 \<and> x2f ex_field (0, 0, 1) = 2001 \<and>
   x3f ex_field (1, 0, 1) = 3101 \<and> x3f ex_field (0, 0, 1) = 3001"
  by (simp add: SetBoundarySameLevel_def read_reference_def ex_block_def ex_field_def)

section \<open>The same-level round trip\<close>

lemma PackData_fold: "PackData src b0 bx p0 = fold (pack_step src) (box_indices bx) (b0, p0)"
proof -
  have "(\<lambda>idx (b, p). (b(p := src idx), p + 1)) = pack_step src"
    by (intro ext) (simp add: pack_step_def case_prod_beta)
  then show ?thesis unfolding PackData_def by simp
qed

lemma UnpackData_fold: "UnpackData b d0 bx p0 = fold (unpack_step b) (box_indices bx) (d0, p0)"
proof -
  have "(\<lambda>(idx :: int \<times> int \<times> int) (d, p). (d(idx := b p), p + 1)) = unpack_step b"
    by (intro ext) (simp add: unpack_step_def case_prod_beta)
  then show ?thesis unfolding UnpackData_def by simp
qed

lemma pack_fold_snd:
  "snd (fold (pack_step src) idxs s) = snd s + length idxs"
  by (induction idxs arbitrary: s) (simp_all add: pack_step_def)

lemma pack_fold_below:
  "q < snd s \<Longrightarrow> fst (fold (pack_step src) idxs s) q = fst s q"
  by (induction idxs arbitrary: s) (simp_all add: pack_step_def)

lemma pack_fold_value:
  "n < length idxs \<Longrightarrow> fst (fold (pack_step src) idxs s) (snd s + n) = src (idxs ! n)"
proof (induction idxs arbitrary: s n)
  case Nil
  then show ?case by simp
next
  case (Cons x xs)
  show ?case
  proof (cases n)
    case 0
    have "fst (fold (pack_step src) xs (pack_step src x s)) (snd s) = fst (pack_step src x s) (snd s)"
      by (rule pack_fold_below) (simp add: pack_step_def)
    moreover have "fst (pack_step src x s) (snd s) = src x"
      by (simp add: pack_step_def)
    ultimately show ?thesis using 0 by simp
  next
    case (Suc m)
    with Cons.prems have "m < length xs" by simp
    from Cons.IH [OF this, of "pack_step src x s"] Suc show ?thesis
      by (simp add: pack_step_def)
  qed
qed

lemma unpack_fold_snd:
  "snd (fold (unpack_step b) idxs s) = snd s + length idxs"
  by (induction idxs arbitrary: s) (simp_all add: unpack_step_def)

lemma unpack_fold_frame:
  "x \<notin> set idxs \<Longrightarrow> fst (fold (unpack_step b) idxs s) x = fst s x"
  by (induction idxs arbitrary: s) (simp_all add: unpack_step_def)

lemma unpack_fold_value:
  "distinct idxs \<Longrightarrow> n < length idxs \<Longrightarrow>
     fst (fold (unpack_step b) idxs s) (idxs ! n) = b (snd s + n)"
proof (induction idxs arbitrary: s n)
  case Nil
  then show ?case by simp
next
  case (Cons x xs)
  show ?case
  proof (cases n)
    case 0
    have "fst (fold (unpack_step b) xs (unpack_step b x s)) x = fst (unpack_step b x s) x"
      using Cons.prems by (intro unpack_fold_frame) simp
    moreover have "fst (unpack_step b x s) x = b (snd s)"
      by (simp add: unpack_step_def)
    ultimately show ?thesis using 0 by simp
  next
    case (Suc m)
    with Cons.prems have "m < length xs" "distinct xs" by simp_all
    from Cons.IH [OF this(2,1), of "unpack_step b x s"] Suc show ?thesis
      by (simp add: unpack_step_def)
  qed
qed

lemma PackData_snd: "snd (PackData src b0 bx p0) = p0 + length (box_indices bx)"
  by (simp add: PackData_fold pack_fold_snd)

lemma PackData_below: "q < p0 \<Longrightarrow> fst (PackData src b0 bx p0) q = b0 q"
  by (simp add: PackData_fold pack_fold_below)

lemma PackData_value:
  "n < length (box_indices bx) \<Longrightarrow> fst (PackData src b0 bx p0) (p0 + n) = src (box_indices bx ! n)"
  using pack_fold_value [of n "box_indices bx" src "(b0, p0)"] by (simp add: PackData_fold)

lemma distinct_concat_map:
  "distinct xs \<Longrightarrow> (\<And>x. x \<in> set xs \<Longrightarrow> distinct (f x)) \<Longrightarrow>
   (\<And>x y. x \<in> set xs \<Longrightarrow> y \<in> set xs \<Longrightarrow> x \<noteq> y \<Longrightarrow> set (f x) \<inter> set (f y) = {}) \<Longrightarrow>
   distinct (concat (map f xs))"
proof (induction xs)
  case Nil
  then show ?case by simp
next
  case (Cons x xs)
  have "distinct (concat (map f xs))"
    using Cons.prems by (intro Cons.IH) simp_all
  moreover have "distinct (f x)" using Cons.prems(2) by simp
  moreover have "set (f x) \<inter> (\<Union>y \<in> set xs. set (f y)) = {}"
    using Cons.prems(1,3) by fastforce
  ultimately show ?case by simp
qed

lemma box_indices_distinct: "distinct (box_indices bx)"
proof -
  obtain si ei sj ej sk ek where bx: "bx = (si, ei, sj, ej, sk, ek)"
    by (metis prod_cases3)
  have inner: "\<And>k j. distinct (map (\<lambda>i. (k, j, i)) [si..ei])"
    by (simp add: distinct_map inj_on_def)
  have mid: "\<And>k. distinct (concat (map (\<lambda>j. map (\<lambda>i. (k, j, i)) [si..ei]) [sj..ej]))"
    by (intro distinct_concat_map inner) auto
  have "distinct (concat (map (\<lambda>k. concat (map (\<lambda>j. map (\<lambda>i. (k, j, i)) [si..ei]) [sj..ej])) [sk..ek]))"
    by (intro distinct_concat_map mid) auto
  then show ?thesis by (simp add: bx)
qed

lemma box_indices_mem:
  "(k, j, i) \<in> set (box_indices (si, ei, sj, ej, sk, ek)) \<longleftrightarrow>
     sk \<le> k \<and> k \<le> ek \<and> sj \<le> j \<and> j \<le> ej \<and> si \<le> i \<and> i \<le> ei"
  by (auto simp: image_iff)

lemma length_concat_map_const:
  "(\<And>x. x \<in> set xs \<Longrightarrow> length (f x) = c) \<Longrightarrow> length (concat (map f xs)) = length xs * c"
  by (induction xs) simp_all

lemma box_indices_length:
  "length (box_indices (si, ei, sj, ej, sk, ek)) =
     nat (ek - sk + 1) * (nat (ej - sj + 1) * nat (ei - si + 1))"
proof -
  have "\<And>k. length (concat (map (\<lambda>j. map (\<lambda>i. (k, j, i)) [si..ei]) [sj..ej])) =
          length [sj..ej] * length [si..ei]"
    by (rule length_concat_map_const) simp
  then have "length (box_indices (si, ei, sj, ej, sk, ek)) =
          length [sk..ek] * (length [sj..ej] * length [si..ei])"
    unfolding box_indices.simps by (intro length_concat_map_const) simp
  then show ?thesis by simp
qed

lemma UnpackData_snd: "snd (UnpackData b d0 bx p0) = p0 + length (box_indices bx)"
  by (simp add: UnpackData_fold unpack_fold_snd)

lemma UnpackData_frame: "x \<notin> set (box_indices bx) \<Longrightarrow> fst (UnpackData b d0 bx p0) x = d0 x"
  by (simp add: UnpackData_fold unpack_fold_frame)

lemma UnpackData_value:
  "n < length (box_indices bx) \<Longrightarrow> fst (UnpackData b d0 bx p0) (box_indices bx ! n) = b (p0 + n)"
  using unpack_fold_value [OF box_indices_distinct, of n bx b "(d0, p0)"] by (simp add: UnpackData_fold)

lemma extents_length:
  "extents a = extents b \<Longrightarrow> length (box_indices a) = length (box_indices b)"
proof -
  assume e: "extents a = extents b"
  obtain si ei sj ej sk ek where a: "a = (si, ei, sj, ej, sk, ek)" by (metis prod_cases3)
  obtain si' ei' sj' ej' sk' ek' where b: "b = (si', ei', sj', ej', sk', ek')" by (metis prod_cases3)
  from e show ?thesis unfolding a b box_indices_length by simp
qed

lemma bx1_extents:
  assumes "ox1 (ni nbR) = - ox1 (ni nbS)" "ox2 (ni nbR) = - ox2 (ni nbS)"
    "ox3 (ni nbR) = - ox3 (ni nbS)" "type (ni nbR) = type (ni nbS)"
  shows "extents (set_bx1 NGHOST multilevel (cellbounds pmbS) nbR) =
         extents (load_bx1 NGHOST multilevel pmbS nbS)"
  using assms by (simp add: set_bx1_def load_bx1_def Let_def)

lemma bx2_extents:
  assumes "ox1 (ni nbR) = - ox1 (ni nbS)" "ox2 (ni nbR) = - ox2 (ni nbS)"
    "ox3 (ni nbR) = - ox3 (ni nbS)" "type (ni nbR) = type (ni nbS)"
    "block_size pmbR = block_size pmbS"
    "extents bR = extents bS"
  shows "extents (set_bx2 NGHOST multilevel (cellbounds pmbS) pmbR nbR bR) =
         extents (load_bx2 NGHOST multilevel pmbS nbS bS)"
proof -
  obtain si ei sj ej sk ek where a: "bR = (si, ei, sj, ej, sk, ek)" by (metis prod_cases3)
  obtain si' ei' sj' ej' sk' ek' where b: "bS = (si', ei', sj', ej', sk', ek')" by (metis prod_cases3)
  from assms show ?thesis unfolding a b by (simp add: Let_def)
qed

lemma bx3_extents:
  assumes "ox1 (ni nbR) = - ox1 (ni nbS)" "ox2 (ni nbR) = - ox2 (ni nbS)"
    "ox3 (ni nbR) = - ox3 (ni nbS)" "type (ni nbR) = type (ni nbS)"
    "block_size pmbR = block_size pmbS"
    "extents bR = extents bS"
  shows "extents (set_bx3 NGHOST multilevel (cellbounds pmbS) pmbR nbR bR) =
         extents (load_bx3 NGHOST multilevel pmbS nbS bS)"
proof -
  obtain si ei sj ej sk ek where a: "bR = (si, ei, sj, ej, sk, ek)" by (metis prod_cases3)
  obtain si' ei' sj' ej' sk' ek' where b: "bS = (si', ei', sj', ej', sk', ek')" by (metis prod_cases3)
  from assms show ?thesis unfolding a b by (simp add: Let_def)
qed

text \<open>On a degenerate axis without an offset the unpacked box is one plane thick.\<close>

lemma set_bx2_flat:
  assumes "nx2 (block_size pmb) = 1" "je cb = js cb" "ox2 (ni nb) = 0"
  shows "case set_bx2 NGHOST multilevel cb pmb nb b1 of (si, ei, sj, ej, sk, ek) \<Rightarrow> ej = sj"
proof -
  obtain si ei sj ej sk ek where a: "b1 = (si, ei, sj, ej, sk, ek)" by (metis prod_cases3)
  from assms show ?thesis unfolding a by (simp add: Let_def)
qed

lemma set_bx3_flat:
  assumes "nx3 (block_size pmb) = 1" "ke cb = ks cb" "ox3 (ni nb) = 0"
  shows "case set_bx3 NGHOST multilevel cb pmb nb b2 of (si, ei, sj, ej, sk, ek) \<Rightarrow> ek = sk"
proof -
  obtain si ei sj ej sk ek where a: "b2 = (si, ei, sj, ej, sk, ek)" by (metis prod_cases3)
  from assms show ?thesis unfolding a by (simp add: Let_def)
qed

lemma replicate_x2f_frame:
  assumes "case bx of (si, ei, sj, ej, sk, ek) \<Rightarrow> ej = sj" and "p \<in> set (box_indices bx)"
  shows "replicate_x2f bx a p = a p"
proof -
  obtain si ei sj ej sk ek where bx: "bx = (si, ei, sj, ej, sk, ek)" by (metis prod_cases3)
  obtain k j i where p: "p = (k, j, i)" by (metis prod_cases3)
  from assms have "j = sj" unfolding bx p box_indices_mem by simp
  then have "p \<notin> (\<lambda>i. (sk, sj + 1, i)) ` set [si..ei]" unfolding p by auto
  then show ?thesis unfolding bx replicate_x2f.simps by (rule copy_fold_frame)
qed

lemma replicate_x3f_frame:
  assumes "case bx of (si, ei, sj, ej, sk, ek) \<Rightarrow> ek = sk" and "p \<in> set (box_indices bx)"
  shows "replicate_x3f bx a p = a p"
proof -
  obtain si ei sj ej sk ek where bx: "bx = (si, ei, sj, ej, sk, ek)" by (metis prod_cases3)
  obtain k j i where p: "p = (k, j, i)" by (metis prod_cases3)
  from assms have "k = sk" unfolding bx p box_indices_mem by simp
  then have "p \<notin> (\<lambda>x :: int \<times> int. (sk + 1, fst x, snd x)) `
               set (concat (map (\<lambda>j. map (\<lambda>i. (j, i)) [si..ei]) [sj..ej]))"
    unfolding p by auto
  then show ?thesis unfolding bx replicate_x3f_flat by (rule copy_fold_frame)
qed

lemma LoadBoundaryBufferSameLevel_unfold:
  "LoadBoundaryBufferSameLevel NGHOST multilevel pmb var_fc sbuf nb =
     (let b1 = load_bx1 NGHOST multilevel pmb nb;
          b2 = load_bx2 NGHOST multilevel pmb nb b1;
          b3 = load_bx3 NGHOST multilevel pmb nb b2;
          s1 = PackData (x1f var_fc) sbuf b1 0;
          s2 = PackData (x2f var_fc) (fst s1) b2 (snd s1)
      in PackData (x3f var_fc) (fst s2) b3 (snd s2))"
  by (simp add: LoadBoundaryBufferSameLevel_def Let_def case_prod_beta)

text \<open>
  The round trip through the statements after line 437 of \<^verbatim>\<open>SetBoundarySameLevel\<close>,
  were its reference bound as the sibling functions bind it, to the cell bounds of the
  receiving block. Sender and receiver are
  blocks of one level, with the same extents and cell bounds; the receiver's relation
  carries the negated offsets and the same connectivity type; an axis of extent 1 has a
  single interior plane and no offset along it. Then each component is unpacked into as
  many indices as were packed, the buffer holds their sum, and after the call the
  receiver holds at the \<open>n\<close>-th unpacked index the sender's value at the \<open>n\<close>-th packed
  index.
\<close>

lemma same_level_round_trip:
  fixes varS varR :: "'a FaceField" and sbuf :: "nat \<Rightarrow> 'a"
    and NGHOST :: int and multilevel :: bool
    and pmbS pmbR :: MeshBlock and nbS nbR :: NeighborBlock
  assumes geo: "block_size pmbR = block_size pmbS" "cellbounds pmbR = cellbounds pmbS"
    and neg: "ox1 (ni nbR) = - ox1 (ni nbS)" "ox2 (ni nbR) = - ox2 (ni nbS)"
      "ox3 (ni nbR) = - ox3 (ni nbS)" "type (ni nbR) = type (ni nbS)"
    and d2: "nx2 (block_size pmbS) = 1 \<longrightarrow>
               je (cellbounds pmbS) = js (cellbounds pmbS) \<and> ox2 (ni nbS) = 0"
    and d3: "nx3 (block_size pmbS) = 1 \<longrightarrow>
               ke (cellbounds pmbS) = ks (cellbounds pmbS) \<and> ox3 (ni nbS) = 0"
  defines "L1 \<equiv> load_bx1 NGHOST multilevel pmbS nbS"
    and "R1 \<equiv> set_bx1 NGHOST multilevel (cellbounds pmbR) nbR"
  defines "L2 \<equiv> load_bx2 NGHOST multilevel pmbS nbS L1"
    and "R2 \<equiv> set_bx2 NGHOST multilevel (cellbounds pmbR) pmbR nbR R1"
  defines "L3 \<equiv> load_bx3 NGHOST multilevel pmbS nbS L2"
    and "R3 \<equiv> set_bx3 NGHOST multilevel (cellbounds pmbR) pmbR nbR R2"
  defines "packed \<equiv> LoadBoundaryBufferSameLevel NGHOST multilevel pmbS varS sbuf nbS"
  defines "res \<equiv> SetBoundarySameLevel_body NGHOST multilevel (cellbounds pmbR) pmbR varR (fst packed) nbR"
  shows "length (box_indices R1) = length (box_indices L1) \<and>
         length (box_indices R2) = length (box_indices L2) \<and>
         length (box_indices R3) = length (box_indices L3) \<and>
         snd packed = length (box_indices L1) + length (box_indices L2) + length (box_indices L3) \<and>
         (\<forall>n < length (box_indices L1). x1f res (box_indices R1 ! n) = x1f varS (box_indices L1 ! n)) \<and>
         (\<forall>n < length (box_indices L2). x2f res (box_indices R2 ! n) = x2f varS (box_indices L2 ! n)) \<and>
         (\<forall>n < length (box_indices L3). x3f res (box_indices R3 ! n) = x3f varS (box_indices L3 ! n))"
proof -
  let ?l1 = "length (box_indices L1)" and ?l2 = "length (box_indices L2)"
    and ?l3 = "length (box_indices L3)"
  have e1: "extents R1 = extents L1"
    unfolding R1_def L1_def geo by (rule bx1_extents [OF neg])
  have e2: "extents R2 = extents L2"
    unfolding R2_def L2_def geo(2) by (rule bx2_extents [OF neg geo(1) e1])
  have e3: "extents R3 = extents L3"
    unfolding R3_def L3_def geo(2) by (rule bx3_extents [OF neg geo(1) e2])
  have n1: "length (box_indices R1) = ?l1" using e1 by (rule extents_length)
  have n2: "length (box_indices R2) = ?l2" using e2 by (rule extents_length)
  have n3: "length (box_indices R3) = ?l3" using e3 by (rule extents_length)
  let ?s1 = "PackData (x1f varS) sbuf L1 0"
  let ?s2 = "PackData (x2f varS) (fst ?s1) L2 (snd ?s1)"
  let ?s3 = "PackData (x3f varS) (fst ?s2) L3 (snd ?s2)"
  have packed: "packed = ?s3"
    unfolding packed_def LoadBoundaryBufferSameLevel_unfold L1_def L2_def L3_def Let_def by (rule refl)
  have p1: "snd ?s1 = ?l1" by (simp add: PackData_snd)
  have p2: "snd ?s2 = ?l1 + ?l2" by (simp add: PackData_snd)
  have p3: "snd ?s3 = ?l1 + ?l2 + ?l3" by (simp add: PackData_snd)
  have v1: "fst packed n = x1f varS (box_indices L1 ! n)" if "n < ?l1" for n
  proof -
    have "fst ?s3 n = fst ?s2 n" using that by (intro PackData_below) (simp add: p2)
    also have "\<dots> = fst ?s1 n" using that by (intro PackData_below) (simp add: p1)
    also have "\<dots> = x1f varS (box_indices L1 ! n)"
      using PackData_value [OF that, of "x1f varS" sbuf 0] by simp
    finally show ?thesis unfolding packed .
  qed
  have v2: "fst packed (?l1 + n) = x2f varS (box_indices L2 ! n)" if "n < ?l2" for n
  proof -
    have "fst ?s3 (?l1 + n) = fst ?s2 (?l1 + n)" using that by (intro PackData_below) (simp add: p2)
    also have "\<dots> = x2f varS (box_indices L2 ! n)"
      using PackData_value [OF that, of "x2f varS" "fst ?s1" "snd ?s1"] by (simp add: p1)
    finally show ?thesis unfolding packed .
  qed
  have v3: "fst packed (?l1 + ?l2 + n) = x3f varS (box_indices L3 ! n)" if "n < ?l3" for n
    using PackData_value [OF that, of "x3f varS" "fst ?s2" "snd ?s2"] unfolding packed by (simp add: p2)
  let ?u1 = "UnpackData (fst packed) (x1f varR) R1 0"
  let ?u2 = "UnpackData (fst packed) (x2f varR) R2 (snd ?u1)"
  let ?u3 = "UnpackData (fst packed) (x3f varR) R3 (snd ?u2)"
  have q1: "snd ?u1 = ?l1" by (simp add: UnpackData_snd n1)
  have q2: "snd ?u2 = ?l1 + ?l2" by (simp add: UnpackData_snd n1 n2)
  have bs: "nx2 (block_size pmbR) = nx2 (block_size pmbS)" "nx3 (block_size pmbR) = nx3 (block_size pmbS)"
    using geo by simp_all
  have r1: "x1f res = fst ?u1"
    unfolding res_def SetBoundarySameLevel_body_x1f R1_def by (rule refl)
  have r2: "x2f res = (if nx2 (block_size pmbS) = 1 then replicate_x2f R2 (fst ?u2) else fst ?u2)"
    unfolding res_def SetBoundarySameLevel_body_x2f R1_def R2_def Let_def bs by (rule refl)
  have r3: "x3f res = (if nx3 (block_size pmbS) = 1 then replicate_x3f R3 (fst ?u3) else fst ?u3)"
    unfolding res_def SetBoundarySameLevel_body_x3f R1_def R2_def R3_def Let_def bs by (rule refl)
  have w1: "\<forall>n < ?l1. x1f res (box_indices R1 ! n) = x1f varS (box_indices L1 ! n)"
  proof (intro allI impI)
    fix n assume n: "n < ?l1"
    then have "n < length (box_indices R1)" using n1 by simp
    from UnpackData_value [OF this, of "fst packed" "x1f varR" 0] v1 [OF n]
    show "x1f res (box_indices R1 ! n) = x1f varS (box_indices L1 ! n)"
      unfolding r1 by simp
  qed
  have w2: "\<forall>n < ?l2. x2f res (box_indices R2 ! n) = x2f varS (box_indices L2 ! n)"
  proof (intro allI impI)
    fix n assume n: "n < ?l2"
    then have m: "n < length (box_indices R2)" using n2 by simp
    from UnpackData_value [OF m, of "fst packed" "x2f varR" "snd ?u1"] v2 [OF n]
    have u: "fst ?u2 (box_indices R2 ! n) = x2f varS (box_indices L2 ! n)"
      by (simp add: q1)
    show "x2f res (box_indices R2 ! n) = x2f varS (box_indices L2 ! n)"
    proof (cases "nx2 (block_size pmbS) = 1")
      case False
      then show ?thesis using u unfolding r2 by simp
    next
      case True
      with d2 have "je (cellbounds pmbR) = js (cellbounds pmbR)" "ox2 (ni nbR) = 0"
        using geo neg by simp_all
      with True bs have flat: "case R2 of (si, ei, sj, ej, sk, ek) \<Rightarrow> ej = sj"
        unfolding R2_def by (intro set_bx2_flat) simp_all
      have "replicate_x2f R2 (fst ?u2) (box_indices R2 ! n) = fst ?u2 (box_indices R2 ! n)"
        using flat m by (intro replicate_x2f_frame) simp_all
      then show ?thesis using u True unfolding r2 by simp
    qed
  qed
  have w3: "\<forall>n < ?l3. x3f res (box_indices R3 ! n) = x3f varS (box_indices L3 ! n)"
  proof (intro allI impI)
    fix n assume n: "n < ?l3"
    then have m: "n < length (box_indices R3)" using n3 by simp
    from UnpackData_value [OF m, of "fst packed" "x3f varR" "snd ?u2"] v3 [OF n]
    have u: "fst ?u3 (box_indices R3 ! n) = x3f varS (box_indices L3 ! n)"
      by (simp add: q2)
    show "x3f res (box_indices R3 ! n) = x3f varS (box_indices L3 ! n)"
    proof (cases "nx3 (block_size pmbS) = 1")
      case False
      then show ?thesis using u unfolding r3 by simp
    next
      case True
      with d3 have "ke (cellbounds pmbR) = ks (cellbounds pmbR)" "ox3 (ni nbR) = 0"
        using geo neg by simp_all
      with True bs have flat: "case R3 of (si, ei, sj, ej, sk, ek) \<Rightarrow> ek = sk"
        unfolding R3_def by (intro set_bx3_flat) simp_all
      have "replicate_x3f R3 (fst ?u3) (box_indices R3 ! n) = fst ?u3 (box_indices R3 ! n)"
        using flat m by (intro replicate_x3f_frame) simp_all
      then show ?thesis using u True unfolding r3 by simp
    qed
  qed
  have total: "snd packed = ?l1 + ?l2 + ?l3" unfolding packed by (rule p3)
  show ?thesis
    by (intro conjI) (rule n1 n2 n3 total w1 w2 w3)+
qed

text \<open>
  Claim C2 at a failing input. Two blocks of one level, 4 cells along each axis and 2
  ghost cells, the sender's relation with offset \<open>(1, 0, 0)\<close> and the receiver's with
  \<open>(-1, 0, 0)\<close>. The sender packs 32, 40 and 40 values. The receiver's call reads its
  first index bound through the reference that line 437 leaves without an object and
  ends in the fault: no value of the buffer reaches the receiver, whose ghost face
  \<open>(k, j, i) = (2, 2, 1)\<close> was to receive the sender's value at \<open>(2, 2, 5)\<close>. Were the
  reads through the reference to deliver zeros, the first component would be unpacked
  into 2 indices, and that ghost face would keep what it held before.
\<close>

theorem SetBoundarySameLevel_reads_unbound_reference:
  "snd (LoadBoundaryBufferSameLevel 2 False (ex_block 0 0 4 4 4 []) ex_field (\<lambda>n. 0)
          (ex_nb 1 0 0 (ex_ni 1 0 0 face))) = 112 \<and>
   length (box_indices (load_bx1 2 False (ex_block 0 0 4 4 4 []) (ex_nb 1 0 0 (ex_ni 1 0 0 face)))) = 32 \<and>
   length (box_indices (set_bx1 2 False ex_zero_shape (ex_nb 0 0 0 (ex_ni (-1) 0 0 face)))) = 2 \<and>
   x1f ex_field (2, 2, 5) = 1225 \<and>
   x1f (SetBoundarySameLevel_body 2 False ex_zero_shape (ex_block 1 0 4 4 4 []) ex_zero_field
          (fst (LoadBoundaryBufferSameLevel 2 False (ex_block 0 0 4 4 4 []) ex_field (\<lambda>n. 0)
                  (ex_nb 1 0 0 (ex_ni 1 0 0 face))))
          (ex_nb 0 0 0 (ex_ni (-1) 0 0 face))) (2, 2, 1) = 0 \<and>
   SetBoundarySameLevel 2 False (ex_block 1 0 4 4 4 []) ex_zero_field
     (fst (LoadBoundaryBufferSameLevel 2 False (ex_block 0 0 4 4 4 []) ex_field (\<lambda>n. 0)
             (ex_nb 1 0 0 (ex_ni 1 0 0 face))))
     (ex_nb 0 0 0 (ex_ni (-1) 0 0 face)) = Inl UnboundReference"
proof -
  let ?S = "ex_block 0 0 4 4 4 []" and ?nbS = "ex_nb 1 0 0 (ex_ni 1 0 0 face)"
    and ?nbR = "ex_nb 0 0 0 (ex_ni (-1) 0 0 face)"
  have f: "SetBoundarySameLevel 2 False (ex_block 1 0 4 4 4 []) ex_zero_field
     (fst (LoadBoundaryBufferSameLevel 2 False ?S ex_field (\<lambda>n. 0) ?nbS)) ?nbR = Inl UnboundReference"
    by (simp add: SetBoundarySameLevel_def read_reference_def)
  have l1: "load_bx1 2 False ?S ?nbS = (4, 5, 2, 5, 2, 5)"
    by (simp add: load_bx1_def ex_block_def ex_shape_def ex_nb_def ex_ni_def)
  have l2: "load_bx2 2 False ?S ?nbS (4, 5, 2, 5, 2, 5) = (4, 5, 2, 6, 2, 5)"
    by (simp add: ex_block_def ex_shape_def ex_nb_def ex_ni_def)
  have l3: "load_bx3 2 False ?S ?nbS (4, 5, 2, 6, 2, 5) = (4, 5, 2, 5, 2, 6)"
    by (simp add: ex_block_def ex_shape_def ex_nb_def ex_ni_def)
  have r1: "set_bx1 2 False ex_zero_shape ?nbR = (- 2, - 1, 0, 0, 0, 0)"
    by (simp add: set_bx1_def ex_zero_shape_def ex_nb_def ex_ni_def)
  have a: "snd (LoadBoundaryBufferSameLevel 2 False ?S ex_field (\<lambda>n. 0) ?nbS) = 112"
    unfolding LoadBoundaryBufferSameLevel_unfold Let_def PackData_snd l1 l2 l3 box_indices_length
    by simp
  have b: "length (box_indices (load_bx1 2 False ?S ?nbS)) = 32"
    unfolding l1 box_indices_length by simp
  have c: "length (box_indices (set_bx1 2 False ex_zero_shape ?nbR)) = 2"
    unfolding r1 box_indices_length by simp
  have d: "x1f ex_field (2, 2, 5) = 1225"
    by (simp add: ex_field_def)
  have "(2, 2, 1) \<notin> set (box_indices (- 2, - 1, 0, 0, 0, 0))"
    unfolding box_indices_mem by simp
  then have e: "x1f (SetBoundarySameLevel_body 2 False ex_zero_shape (ex_block 1 0 4 4 4 []) ex_zero_field
          (fst (LoadBoundaryBufferSameLevel 2 False ?S ex_field (\<lambda>n. 0) ?nbS)) ?nbR) (2, 2, 1) = 0"
    unfolding SetBoundarySameLevel_body_x1f r1 by (simp add: UnpackData_frame ex_zero_field_def)
  show ?thesis
    by (intro conjI) (rule a b c d e f)+
qed

text \<open>
  The same two blocks, were the reads through the reference to deliver the receiver's
  cell bounds: the ghost face \<open>(2, 2, 1)\<close> receives the sender's value.
\<close>

lemma same_level_round_trip_example:
  "x1f (SetBoundarySameLevel_body 2 False (cellbounds (ex_block 1 0 4 4 4 [])) (ex_block 1 0 4 4 4 [])
          ex_zero_field
          (fst (LoadBoundaryBufferSameLevel 2 False (ex_block 0 0 4 4 4 []) ex_field (\<lambda>n. 0)
                  (ex_nb 1 0 0 (ex_ni 1 0 0 face))))
          (ex_nb 0 0 0 (ex_ni (-1) 0 0 face))) (2, 2, 1) = 1225"
proof -
  let ?S = "ex_block 0 0 4 4 4 []" and ?R = "ex_block 1 0 4 4 4 []"
    and ?nbS = "ex_nb 1 0 0 (ex_ni 1 0 0 face)" and ?nbR = "ex_nb 0 0 0 (ex_ni (-1) 0 0 face)"
  have l1: "load_bx1 2 False ?S ?nbS = (4, 5, 2, 5, 2, 5)"
    by (simp add: load_bx1_def ex_block_def ex_shape_def ex_nb_def ex_ni_def)
  have r1: "set_bx1 2 False (cellbounds ?R) ?nbR = (0, 1, 2, 5, 2, 5)"
    by (simp add: set_bx1_def ex_block_def ex_shape_def ex_nb_def ex_ni_def)
  have i: "[0..1::int] = [0, 1]" "[4..5::int] = [4, 5]" "[2..5::int] = [2, 3, 4, 5]"
    by (simp_all add: upto_rec1)
  have n: "box_indices (0, 1, 2, 5, 2, 5) ! 1 = (2, 2, 1)" "box_indices (4, 5, 2, 5, 2, 5) ! 1 = (2, 2, 5)"
    by (simp_all add: i)
  have g: "block_size ?R = block_size ?S" "cellbounds ?R = cellbounds ?S"
    by (simp_all add: ex_block_def)
  have o: "ox1 (ni ?nbR) = - ox1 (ni ?nbS)" "ox2 (ni ?nbR) = - ox2 (ni ?nbS)"
    "ox3 (ni ?nbR) = - ox3 (ni ?nbS)" "type (ni ?nbR) = type (ni ?nbS)"
    by (simp_all add: ex_nb_def ex_ni_def)
  have d: "nx2 (block_size ?S) = 1 \<longrightarrow> je (cellbounds ?S) = js (cellbounds ?S) \<and> ox2 (ni ?nbS) = 0"
    "nx3 (block_size ?S) = 1 \<longrightarrow> ke (cellbounds ?S) = ks (cellbounds ?S) \<and> ox3 (ni ?nbS) = 0"
    by (simp_all add: ex_block_def)
  from same_level_round_trip
    [OF g o d, where NGHOST = 2 and multilevel = False and varR = ex_zero_field
       and varS = ex_field and sbuf = "\<lambda>n. 0"]
  have "\<forall>n < length (box_indices (4, 5, 2, 5, 2, 5)).
          x1f (SetBoundarySameLevel_body 2 False (cellbounds ?R) ?R ex_zero_field
                 (fst (LoadBoundaryBufferSameLevel 2 False ?S ex_field (\<lambda>n. 0) ?nbS)) ?nbR)
            (box_indices (0, 1, 2, 5, 2, 5) ! n) =
          x1f ex_field (box_indices (4, 5, 2, 5, 2, 5) ! n)"
    unfolding l1 r1 by (elim conjE)
  then have "x1f (SetBoundarySameLevel_body 2 False (cellbounds ?R) ?R ex_zero_field
                 (fst (LoadBoundaryBufferSameLevel 2 False ?S ex_field (\<lambda>n. 0) ?nbS)) ?nbR)
            (box_indices (0, 1, 2, 5, 2, 5) ! 1) =
          x1f ex_field (box_indices (4, 5, 2, 5, 2, 5) ! 1)"
    unfolding box_indices_length by simp
  then show ?thesis unfolding n by (simp add: ex_field_def)
qed

end
